theory Spec2Isabelle
  imports Complex_Main "HOL-Library.Multiset"
begin

section \<open>STAR tabulation of the best meeting time\<close>

text \<open>
  A shallow embedding of the tabulation routines of \<^verbatim>\<open>utils/star.ts\<close> and of
  \<^verbatim>\<open>utils/calculateAvailability.ts\<close>.

  Conventions of the embedding:
  \<^item> a JavaScript \<^verbatim>\<open>number\<close> that carries a score or a pseudorandom draw is an exact
    rational (\<^typ>\<open>rat\<close>); a count (\<^verbatim>\<open>.length\<close>, a loop counter) is a \<^typ>\<open>nat\<close>;
    the requested number of winners is an \<^typ>\<open>int\<close>, because the full round computes it
    by a subtraction;
  \<^item> a \<^verbatim>\<open>Temporal.ZonedDateTime\<close> (always built in UTC) is the number of minutes since
    the epoch, an \<^typ>\<open>int\<close>; \<^verbatim>\<open>add({ minutes: d })\<close> is addition;
  \<^item> the meeting duration is a \<^typ>\<open>nat\<close> (minutes): the page offers the durations
    \<^verbatim>\<open>(x + 1) * 15\<close> only;
  \<^item> a \<^verbatim>\<open>throw\<close>, and a property read on \<^verbatim>\<open>undefined\<close>, is a value of type
    \<open>error\<close>; functions that can throw return \<open>error + 'a\<close>;
  \<^item> \<^verbatim>\<open>Array.prototype.sort\<close> is stable and sorts in place; the arrays a caller can
    still see after the call are returned beside the result;
  \<^item> \<^verbatim>\<open>structuredClone\<close> is the identity on values;
  \<^item> \<^verbatim>\<open>seedrandom\<close> and \<^verbatim>\<open>convertTimesToDates\<close> are libraries outside the
    repository's sources: the generator and the time map are parameters.
\<close>

subsection \<open>Data model\<close>

datatype error =
    TooFewCandidates          \<comment> \<open>calculateMiniRound should be called with more candidates ...\<close>
  | RankedWinsNotCalculated   \<comment> \<open>ranked wins were not calculated before ranked robin round\<close>
  | UndefinedCandidate        \<comment> \<open>TypeError: a property of \<^verbatim>\<open>undefined\<close> is read\<close>

text \<open>The value of a JavaScript division, which never throws.\<close>

datatype jsnumber = Finite rat | PosInfinity | NegInfinity | NaN

definition js_div :: "rat \<Rightarrow> rat \<Rightarrow> jsnumber" where
  "js_div x y =
     (if y = 0 then (if 0 < x then PosInfinity else if x < 0 then NegInfinity else NaN)
      else Finite (x / y))"

fun js_gt :: "jsnumber \<Rightarrow> rat \<Rightarrow> bool" where
  "js_gt (Finite x) y = (y < x)"
| "js_gt PosInfinity y = True"
| "js_gt NegInfinity y = False"
| "js_gt NaN y = False"

record TimeScore =
  time :: string
  score :: rat

record PersonResponse =
  name :: string
  availability :: "TimeScore list"
  created_at :: int

record NameScore =
  name :: string
  score :: rat

record Availability =
  date :: string
  people :: "NameScore list"

record Candidate =
  date :: string
  people :: "NameScore list"
  score :: rat
  rankedWins :: "nat option"
  fiveStars :: nat
  randomTieValue :: rat

text \<open>The time and the normalised score of a result (a \<^verbatim>\<open>TimeScore\<close> whose score is a quotient).\<close>

record ResultTimeScore =
  time :: string
  score :: jsnumber

record StarResults =
  bestTime :: "ResultTimeScore option"
  nextBest :: "ResultTimeScore option"
  preferredFraction :: "rat option"

datatype miniRoundType = Score | RankedRobin | FiveStars | Random

record MiniRoundResult =
  roundType :: miniRoundType
  candidates :: "Candidate list"
  winners :: "Candidate list"
  tied :: "Candidate list"

record FullRoundResult =
  candidates :: "Candidate list"
  rounds :: "MiniRoundResult list"
  winners :: "Candidate list"

type_synonym TimeMap = "string \<Rightarrow> int"

definition MAXSCORE :: rat where
  "MAXSCORE = 5"

definition TIMESLOT_MINUTES :: nat where
  "TIMESLOT_MINUTES = 15"

definition numTimeslots :: "nat \<Rightarrow> rat" where
  "numTimeslots duration = of_nat duration / of_nat TIMESLOT_MINUTES"

subsection \<open>Scores of a person\<close>

definition getScoreForTime :: "string \<Rightarrow> TimeScore list \<Rightarrow> rat" where
  "getScoreForTime t av =
     (case find (\<lambda>item. TimeScore.time item = t) av of
        Some timescore \<Rightarrow> TimeScore.score timescore
      | None \<Rightarrow> 0)"

definition dropZeroScores :: "TimeScore list \<Rightarrow> TimeScore list" where
  "dropZeroScores av = filter (\<lambda>item. 0 < TimeScore.score item) av"

subsection \<open>Duration Aggregator\<close>

text \<open>An entry of the dense array \<^verbatim>\<open>fullAvailability\<close>.\<close>

record FullSlot =
  time :: string
  timeObj :: int
  score :: rat

definition timeInsideRange :: "int \<Rightarrow> int \<times> int \<Rightarrow> bool" where
  "timeInsideRange other bounds = (fst bounds < other \<and> other < snd bounds)"

definition fullAvailability :: "string list \<Rightarrow> TimeScore list \<Rightarrow> TimeMap \<Rightarrow> FullSlot list" where
  "fullAvailability tms av timeMap =
     sort_key FullSlot.timeObj
       (map (\<lambda>t. \<lparr>FullSlot.time = t, timeObj = timeMap t, score = getScoreForTime t av\<rparr>) tms)"

text \<open>
  \<^verbatim>\<open>slice(idx, idx + numTimeslots)\<close>: the end is truncated to an integer, so the slice
  holds at most \<open>\<lfloor>numTimeslots\<rfloor>\<close> entries from position \<open>idx\<close> on.
\<close>

definition slice_from :: "nat \<Rightarrow> rat \<Rightarrow> 'a list \<Rightarrow> 'a list" where
  "slice_from idx n xs = take (nat \<lfloor>n\<rfloor>) (drop idx xs)"

definition fullScoreAt :: "FullSlot list \<Rightarrow> nat \<Rightarrow> nat \<Rightarrow> rat" where
  "fullScoreAt fa duration idx =
     (let a = fa ! idx;
          bounds = (FullSlot.timeObj a, FullSlot.timeObj a + int duration)
      in FullSlot.score a +
         foldl (\<lambda>sum cur. sum + FullSlot.score cur) 0
           (filter (\<lambda>a2. timeInsideRange (FullSlot.timeObj a2) bounds)
              (slice_from idx (numTimeslots duration) fa)))"

definition newAvailability :: "FullSlot list \<Rightarrow> nat \<Rightarrow> TimeScore list" where
  "newAvailability fa duration =
     map (\<lambda>idx. \<lparr>TimeScore.time = FullSlot.time (fa ! idx), score = fullScoreAt fa duration idx\<rparr>)
       [0..<length fa]"

definition replaceScoresWithFullScores ::
  "string list \<Rightarrow> PersonResponse list \<Rightarrow> nat \<Rightarrow> TimeMap \<Rightarrow> PersonResponse list" where
  "replaceScoresWithFullScores tms ps duration timeMap =
     map (\<lambda>p. \<lparr>PersonResponse.name = PersonResponse.name p,
               availability =
                 dropZeroScores
                   (newAvailability (fullAvailability tms (availability p) timeMap) duration),
               created_at = created_at p\<rparr>) ps"

subsection \<open>Availability Collator\<close>

definition nameScores :: "string \<Rightarrow> PersonResponse list \<Rightarrow> NameScore list" where
  "nameScores d ps =
     concat (map (\<lambda>p. let s = getScoreForTime d (availability p)
                      in if 0 < s then [\<lparr>NameScore.name = PersonResponse.name p, score = s\<rparr>]
                         else []) ps)"

definition calculateAvailability :: "string list \<Rightarrow> PersonResponse list \<Rightarrow> Availability list" where
  "calculateAvailability dates ps =
     (if length ps = 0 then []
      else map (\<lambda>d. \<lparr>Availability.date = d, people = nameScores d ps\<rparr>) dates)"

subsection \<open>Candidate Metrics Calculator\<close>

text \<open>
  The generator \<^verbatim>\<open>seedrandom(eventId)\<close> is the sequence of its draws together with the
  number of draws made so far; \<^verbatim>\<open>myrng()\<close> reads the next one.
\<close>

type_synonym prng = "string \<Rightarrow> nat \<Rightarrow> rat"

text \<open>The first loop: it pushes one score, one five-star count and one draw per time.\<close>

fun simpleMetricsLoop ::
  "(nat \<Rightarrow> rat) \<Rightarrow> nat \<Rightarrow> rat \<Rightarrow> Availability list \<Rightarrow> (rat \<times> nat \<times> rat) list" where
  "simpleMetricsLoop myrng drawn n [] = []"
| "simpleMetricsLoop myrng drawn n (t # ts) =
     (foldl (\<lambda>sum p. sum + NameScore.score p) 0 (Availability.people t),
      length (filter (\<lambda>p. js_gt (js_div (NameScore.score p) n) (MAXSCORE - 1 / 2))
                (Availability.people t)),
      myrng drawn)
     # simpleMetricsLoop myrng (Suc drawn) n ts"

definition calculateSimpleCandidateMetrics ::
  "prng \<Rightarrow> Availability list \<Rightarrow> nat \<Rightarrow> string \<Rightarrow> Candidate list" where
  "calculateSimpleCandidateMetrics seedrandom tms duration eventId =
     map (\<lambda>(t, s, f, r).
            \<lparr>Candidate.date = Availability.date t, people = Availability.people t, score = s,
             rankedWins = None, fiveStars = f, randomTieValue = r\<rparr>)
       (zip tms (simpleMetricsLoop (seedrandom eventId) 0 (numTimeslots duration) tms))"

subsection \<open>Ranked robin\<close>

fun calculateRankedWinsBetweenPair :: "NameScore list \<Rightarrow> NameScore list \<Rightarrow> nat" where
  "calculateRankedWinsBetweenPair [] b = 0"
| "calculateRankedWinsBetweenPair (aNameScore # rest) b =
     (case find (\<lambda>p. NameScore.name p = NameScore.name aNameScore) b of
        None \<Rightarrow> 1
      | Some bNameScore \<Rightarrow>
          (if NameScore.score bNameScore < NameScore.score aNameScore then 1 else 0))
     + calculateRankedWinsBetweenPair rest b"

text \<open>
  The inner loop over \<open>j = i + 1, ..., n - 1\<close> updates the array \<^verbatim>\<open>rankedWins\<close>; the
  outer loop stores \<^verbatim>\<open>rankedWins[i]\<close> in candidate \<open>i\<close> when its inner loop is done.
\<close>

definition rankedWinsInner :: "Candidate list \<Rightarrow> nat \<Rightarrow> nat list \<Rightarrow> nat list" where
  "rankedWinsInner cands i rw =
     fold (\<lambda>j rw.
             let a = Candidate.people (cands ! i);
                 b = Candidate.people (cands ! j);
                 rw1 = rw[i := rw ! i + calculateRankedWinsBetweenPair a b]
             in rw1[j := rw1 ! j + calculateRankedWinsBetweenPair b a])
       [Suc i..<length cands] rw"

definition rankedWinsOuter :: "nat \<Rightarrow> Candidate list \<times> nat list \<Rightarrow> Candidate list \<times> nat list" where
  "rankedWinsOuter i st =
     (let cands = fst st;
          rw = rankedWinsInner cands i (snd st)
      in (cands[i := (cands ! i)\<lparr>rankedWins := Some (rw ! i)\<rparr>], rw))"

definition calculateRankedWins :: "Candidate list \<Rightarrow> Candidate list" where
  "calculateRankedWins cands =
     fst (fold rankedWinsOuter [0..<length cands] (cands, replicate (length cands) 0))"

subsection \<open>Round Tabulator\<close>

definition getMetric :: "Candidate \<Rightarrow> miniRoundType \<Rightarrow> error + rat" where
  "getMetric candidate metric =
     (case metric of
        Score \<Rightarrow> Inr (Candidate.score candidate)
      | RankedRobin \<Rightarrow>
          (case rankedWins candidate of
             None \<Rightarrow> Inl RankedWinsNotCalculated
           | Some w \<Rightarrow> Inr (of_nat w))
      | FiveStars \<Rightarrow> Inr (of_nat (fiveStars candidate))
      | Random \<Rightarrow> Inr (randomTieValue candidate))"

text \<open>\<^verbatim>\<open>scoringFunc\<close> where \<^verbatim>\<open>getMetric\<close> does not throw.\<close>

definition scoringFunc :: "miniRoundType \<Rightarrow> Candidate \<Rightarrow> rat" where
  "scoringFunc rt c = (case getMetric c rt of Inr v \<Rightarrow> v | Inl e \<Rightarrow> 0)"

text \<open>
  A mini round. The second component of the result is the caller's array after the call:
  its candidates carry the ranked wins of a ranked-robin round and it is sorted.
\<close>

definition calculateMiniRound ::
  "int \<Rightarrow> Candidate list \<Rightarrow> miniRoundType \<Rightarrow> error + (MiniRoundResult \<times> Candidate list)" where
  "calculateMiniRound numWinners cands rt =
     (if int (length cands) \<le> numWinners then Inl TooFewCandidates
      else
        let cands1 = (if rt = RankedRobin then calculateRankedWins cands else cands)
        in if \<exists>c \<in> set cands1. isl (getMetric c rt) then Inl RankedWinsNotCalculated
           else if numWinners < 0 then Inl UndefinedCandidate
           else
             let sorted = sort_key (\<lambda>c. - scoringFunc rt c) cands1;
                 scoreToBeat = scoringFunc rt (sorted ! nat numWinners);
                 ws = filter (\<lambda>w. scoreToBeat < scoringFunc rt w) sorted;
                 td = (if int (length ws) = numWinners then []
                       else filter (\<lambda>w. scoringFunc rt w = scoreToBeat) sorted)
             in Inr (\<lparr>roundType = rt, candidates = sorted, winners = ws, tied = td\<rparr>, sorted))"

text \<open>
  The loop of a full round. Its state: the rounds and winners so far, the candidates of
  the next mini round, and the caller's array, which the loop variable aliases in the first
  iteration only (afterwards it holds the clone \<^verbatim>\<open>roundResult.tied\<close>).
\<close>

fun fullRoundLoop ::
  "int \<Rightarrow> MiniRoundResult list \<Rightarrow> Candidate list \<Rightarrow> Candidate list \<Rightarrow> bool \<Rightarrow> Candidate list \<Rightarrow>
   miniRoundType list \<Rightarrow> error + (MiniRoundResult list \<times> Candidate list \<times> Candidate list)" where
  "fullRoundLoop numWinners rs ws cands aliased callerArray [] = Inr (rs, ws, callerArray)"
| "fullRoundLoop numWinners rs ws cands aliased callerArray (m # ms) =
     (case calculateMiniRound (numWinners - int (length ws)) cands m of
        Inl e \<Rightarrow> Inl e
      | Inr (roundResult, cands') \<Rightarrow>
          let rs' = rs @ [roundResult];
              ws' = ws @ MiniRoundResult.winners roundResult;
              callerArray' = (if aliased then cands' else callerArray)
          in if int (length ws') = numWinners then Inr (rs', ws', callerArray')
             else fullRoundLoop numWinners rs' ws' (tied roundResult) False callerArray' ms)"

definition calculateFullRound ::
  "int \<Rightarrow> Candidate list \<Rightarrow> miniRoundType list \<Rightarrow> error + (FullRoundResult \<times> Candidate list)" where
  "calculateFullRound numWinners cands miniRounds =
     (case fullRoundLoop numWinners [] [] cands True cands miniRounds of
        Inl e \<Rightarrow> Inl e
      | Inr (rs, ws, callerArray) \<Rightarrow>
          Inr (\<lparr>FullRoundResult.candidates = cands, rounds = rs, winners = ws\<rparr>, callerArray))"

subsection \<open>Overlap Filter\<close>

definition removeOverlapsWithTopScorer ::
  "Candidate list \<Rightarrow> nat \<Rightarrow> TimeMap \<Rightarrow> error + Candidate list" where
  "removeOverlapsWithTopScorer cands duration timeMap =
     (if 2 < length cands then
        (case calculateFullRound 1 cands [Score, RankedRobin, FiveStars, Random] of
           Inl e \<Rightarrow> Inl e
         | Inr (scoreResult, cands') \<Rightarrow>
             (case FullRoundResult.winners scoreResult of
                [] \<Rightarrow> Inl UndefinedCandidate
              | highestScored # rest \<Rightarrow>
                  let start = timeMap (Candidate.date highestScored);
                      endTime = start + int duration
                  in Inr (filter (\<lambda>other.
                            let otherStart = timeMap (Candidate.date other);
                                otherEnd = otherStart + int duration
                            in \<not> (timeInsideRange otherStart (start, endTime)
                                  \<or> timeInsideRange otherEnd (start, endTime))) cands')))
      else Inr cands)"

subsection \<open>Result Selector\<close>

definition emptyResults :: StarResults where
  "emptyResults = \<lparr>bestTime = None, nextBest = None, preferredFraction = None\<rparr>"

definition calculateStarBest :: "Candidate list \<Rightarrow> nat \<Rightarrow> error + StarResults" where
  "calculateStarBest cands duration =
     (if length cands = 0 then Inr emptyResults
      else if length cands = 1 then
        Inr \<lparr>bestTime =
               Some \<lparr>ResultTimeScore.time = Candidate.date (cands ! 0),
                     score = js_div (Candidate.score (cands ! 0)) (numTimeslots duration)\<rparr>,
             nextBest = None, preferredFraction = None\<rparr>
      else
        (case calculateFullRound 2 cands [Score, RankedRobin, FiveStars, Random] of
           Inl e \<Rightarrow> Inl e
         | Inr (scoreRound, cands') \<Rightarrow>
        (case calculateFullRound 1 (FullRoundResult.winners scoreRound)
                [RankedRobin, Score, FiveStars, Random] of
           Inl e \<Rightarrow> Inl e
         | Inr (runoffRound, scoreWinners) \<Rightarrow>
        (case FullRoundResult.winners runoffRound of
           [] \<Rightarrow> Inl UndefinedCandidate
         | winner # rest \<Rightarrow>
        (case getMetric winner RankedRobin of
           Inl e \<Rightarrow> Inl e
         | Inr winnerRankedWins \<Rightarrow>
        (case find (\<lambda>w. Candidate.date w \<noteq> Candidate.date winner) scoreWinners of
           None \<Rightarrow> Inl UndefinedCandidate
         | Some second \<Rightarrow>
        (case getMetric second RankedRobin of
           Inl e \<Rightarrow> Inl e
         | Inr secondRankedWins \<Rightarrow>
             let totalRankedWins = winnerRankedWins + secondRankedWins;
                 fraction = (if totalRankedWins \<noteq> 0 then winnerRankedWins / totalRankedWins
                             else 0)
             in Inr \<lparr>bestTime =
                       Some \<lparr>ResultTimeScore.time = Candidate.date winner,
                             score = js_div (Candidate.score winner) (numTimeslots duration)\<rparr>,
                     nextBest =
                       Some \<lparr>ResultTimeScore.time = Candidate.date second,
                             score = js_div (Candidate.score second) (numTimeslots duration)\<rparr>,
                     preferredFraction = Some fraction\<rparr>)))))))"

definition calculateBestTime ::
  "prng \<Rightarrow> string list \<Rightarrow> PersonResponse list \<Rightarrow> nat \<Rightarrow> string \<Rightarrow> TimeMap \<Rightarrow> error + StarResults" where
  "calculateBestTime seedrandom tms ps duration eventId timeMap =
     (if length ps = 0 then Inr emptyResults
      else
        let fullPeopleScores = replaceScoresWithFullScores tms ps duration timeMap;
            dateCollated = calculateAvailability tms fullPeopleScores;
            cands0 = calculateSimpleCandidateMetrics seedrandom dateCollated duration eventId
        in (case removeOverlapsWithTopScorer cands0 duration timeMap of
              Inl e \<Rightarrow> Inl e
            | Inr cands \<Rightarrow> calculateStarBest cands duration))"

subsection \<open>The candidates inside \<^verbatim>\<open>calculateBestTime\<close>\<close>

text \<open>
  The local variable \<^verbatim>\<open>candidates\<close> of \<^verbatim>\<open>calculateBestTime\<close>: first as the
  Candidate Metrics Calculator returns it, then as the Overlap Filter returns it.
\<close>

definition initialCandidates ::
  "prng \<Rightarrow> string list \<Rightarrow> PersonResponse list \<Rightarrow> nat \<Rightarrow> string \<Rightarrow> TimeMap \<Rightarrow> Candidate list" where
  "initialCandidates seedrandom tms ps duration eventId timeMap =
     calculateSimpleCandidateMetrics seedrandom
       (calculateAvailability tms (replaceScoresWithFullScores tms ps duration timeMap))
       duration eventId"

definition survivingCandidates ::
  "prng \<Rightarrow> string list \<Rightarrow> PersonResponse list \<Rightarrow> nat \<Rightarrow> string \<Rightarrow> TimeMap \<Rightarrow>
   error + Candidate list" where
  "survivingCandidates seedrandom tms ps duration eventId timeMap =
     removeOverlapsWithTopScorer (initialCandidates seedrandom tms ps duration eventId timeMap)
       duration timeMap"

subsection \<open>Reference definitions\<close>

text \<open>
  The reference computation of a person's score for the meeting that starts at position
  \<open>idx\<close>: the score at \<open>idx\<close> plus the scores of all entries of the whole array that
  lie strictly inside the window (\<^verbatim>\<open>start < other < start+duration\<close>).
\<close>

definition naiveScoreAt :: "FullSlot list \<Rightarrow> nat \<Rightarrow> nat \<Rightarrow> rat" where
  "naiveScoreAt fa duration idx =
     (let a = fa ! idx;
          bounds = (FullSlot.timeObj a, FullSlot.timeObj a + int duration)
      in FullSlot.score a +
         foldl (\<lambda>sum cur. sum + FullSlot.score cur) 0
           (filter (\<lambda>a2. timeInsideRange (FullSlot.timeObj a2) bounds) fa))"

text \<open>
  The score a person gave a candidate, read from the candidate's list of people: a person
  who is not in the list gave zero. A person wins the pair \<open>(A, B)\<close> for \<open>A\<close> when their
  score for \<open>A\<close> exceeds their score for \<open>B\<close>, or their score for \<open>B\<close> is zero while
  their score for \<open>A\<close> is not.
\<close>

definition personScore :: "string \<Rightarrow> NameScore list \<Rightarrow> rat" where
  "personScore n xs =
     (case find (\<lambda>p. NameScore.name p = n) xs of
        None \<Rightarrow> 0
      | Some p \<Rightarrow> NameScore.score p)"

definition winsItFor :: "string \<Rightarrow> NameScore list \<Rightarrow> NameScore list \<Rightarrow> bool" where
  "winsItFor n a b =
     (personScore n b < personScore n a \<or> (personScore n b = 0 \<and> personScore n a \<noteq> 0))"

subsection \<open>Notions used in the statements\<close>

text \<open>
  Two candidate records stand for the same candidate when they differ at most in
  \<^verbatim>\<open>rankedWins\<close>, the only field a round writes.
\<close>

definition sameCandidate :: "Candidate \<Rightarrow> Candidate \<Rightarrow> bool" where
  "sameCandidate c c' \<longleftrightarrow> c'\<lparr>rankedWins := rankedWins c\<rparr> = c"

text \<open>
  The candidates of a mini round with the metric of the round (a ranked-robin round computes
  the ranked wins first), and the same candidates sorted descending by that metric.
\<close>

definition roundPool :: "miniRoundType \<Rightarrow> Candidate list \<Rightarrow> Candidate list" where
  "roundPool rt cands = (if rt = RankedRobin then calculateRankedWins cands else cands)"

definition sortedPool :: "miniRoundType \<Rightarrow> Candidate list \<Rightarrow> Candidate list" where
  "sortedPool rt cands = sort_key (\<lambda>c. - scoringFunc rt c) (roundPool rt cands)"

text \<open>
  The recorded mini rounds of a full round, read as a trace: the first one was asked for
  \<open>need\<close> winners, the next one for \<open>need\<close> minus the winners the first one found, and
  so on; every one of them was asked for at least one winner and for fewer winners than it
  had candidates.
\<close>

fun preconditionsHold :: "int \<Rightarrow> MiniRoundResult list \<Rightarrow> bool" where
  "preconditionsHold need [] = True"
| "preconditionsHold need (r # rs) =
     (0 < need \<and> need < int (length (MiniRoundResult.candidates r))
      \<and> preconditionsHold (need - int (length (MiniRoundResult.winners r))) rs)"

subsection \<open>A small event\<close>

text \<open>
  Six contiguous quarter-hour timeslots from 13:00 on, two people, and a generator whose
  \<open>i\<close>-th draw is \<open>1 / (i + 2)\<close>.
\<close>

definition exampleTimes :: "string list" where
  "exampleTimes = [''1300'', ''1315'', ''1330'', ''1345'', ''1400'', ''1415'']"

definition exampleTimeMap :: TimeMap where
  "exampleTimeMap t =
     (if t = ''1300'' then 780 else if t = ''1315'' then 795 else if t = ''1330'' then 810
      else if t = ''1345'' then 825 else if t = ''1400'' then 840 else if t = ''1415'' then 855
      else 0)"

definition examplePeople :: "PersonResponse list" where
  "examplePeople =
    [\<lparr>PersonResponse.name = ''ada'',
      availability = [\<lparr>TimeScore.time = ''1300'', score = 5\<rparr>,
                      \<lparr>TimeScore.time = ''1415'', score = 5\<rparr>],
      created_at = 0\<rparr>,
     \<lparr>PersonResponse.name = ''bob'',
      availability = [\<lparr>TimeScore.time = ''1315'', score = 5\<rparr>,
                      \<lparr>TimeScore.time = ''1330'', score = 5\<rparr>,
                      \<lparr>TimeScore.time = ''1345'', score = 5\<rparr>,
                      \<lparr>TimeScore.time = ''1400'', score = 5\<rparr>],
      created_at = 1\<rparr>]"

definition examplePrng :: prng where
  "examplePrng seed i = 1 / (of_nat i + 2)"

definition exampleSlots :: "FullSlot list" where
  "exampleSlots =
     [\<lparr>FullSlot.time = ''1300'', timeObj = 780, score = 5\<rparr>,
      \<lparr>FullSlot.time = ''1315'', timeObj = 795, score = 4\<rparr>,
      \<lparr>FullSlot.time = ''1330'', timeObj = 810, score = 3\<rparr>,
      \<lparr>FullSlot.time = ''1345'', timeObj = 825, score = 2\<rparr>]"

definition examplePeopleA :: "NameScore list" where
  "examplePeopleA = [\<lparr>NameScore.name = ''ada'', score = 5\<rparr>,
                     \<lparr>NameScore.name = ''bob'', score = 3\<rparr>]"

definition examplePeopleB :: "NameScore list" where
  "examplePeopleB = [\<lparr>NameScore.name = ''bob'', score = 4\<rparr>,
                     \<lparr>NameScore.name = ''cyd'', score = 2\<rparr>]"

text \<open>Four candidates of quarter-hour meetings; the first two tie on the score.\<close>

definition exampleCandidates :: "Candidate list" where
  "exampleCandidates =
     [\<lparr>Candidate.date = ''1300'',
       people = [\<lparr>NameScore.name = ''ada'', score = 5\<rparr>, \<lparr>NameScore.name = ''bob'', score = 3\<rparr>],
       score = 8, rankedWins = None, fiveStars = 1, randomTieValue = 1 / 2\<rparr>,
      \<lparr>Candidate.date = ''1315'',
       people = [\<lparr>NameScore.name = ''ada'', score = 4\<rparr>, \<lparr>NameScore.name = ''bob'', score = 4\<rparr>],
       score = 8, rankedWins = None, fiveStars = 0, randomTieValue = 1 / 3\<rparr>,
      \<lparr>Candidate.date = ''1330'',
       people = [\<lparr>NameScore.name = ''bob'', score = 5\<rparr>],
       score = 5, rankedWins = None, fiveStars = 1, randomTieValue = 1 / 4\<rparr>,
      \<lparr>Candidate.date = ''1345'',
       people = [\<lparr>NameScore.name = ''ada'', score = 1\<rparr>],
       score = 1, rankedWins = None, fiveStars = 0, randomTieValue = 1 / 5\<rparr>]"

text \<open>The result of the tabulation for these four candidates.\<close>

definition exampleBest :: ResultTimeScore where
  "exampleBest = \<lparr>ResultTimeScore.time = ''1300'', score = Finite 8\<rparr>"

definition exampleNext :: ResultTimeScore where
  "exampleNext = \<lparr>ResultTimeScore.time = ''1315'', score = Finite 8\<rparr>"

definition exampleResult :: StarResults where
  "exampleResult =
     \<lparr>bestTime = Some exampleBest, nextBest = Some exampleNext, preferredFraction = Some (1 / 2)\<rparr>"

section \<open>Properties\<close>

subsection \<open>The result selector\<close>

lemma calculateBestTime_survivors:
  "calculateBestTime sr tms ps d eid tm =
     (if length ps = 0 then Inr emptyResults
      else case survivingCandidates sr tms ps d eid tm of
             Inl e \<Rightarrow> Inl e
           | Inr cands \<Rightarrow> calculateStarBest cands d)"
  by (simp add: calculateBestTime_def survivingCandidates_def initialCandidates_def Let_def)

text \<open>
  Claim C3 (the scoring round asks for two winners, the runoff for one, and both a best
  time and a runner-up are returned whenever two or more candidates survive the Overlap
  Filter) fails on the code when exactly two candidates survive: \<^verbatim>\<open>calculateStarBest\<close>
  starts the scoring round with two requested winners on two candidates, and the first mini
  round throws. This happens for the event with the two timeslots 13:00 and 13:15 and a
  duration of 15 minutes, and for the small event with a duration of 60 minutes, where the
  Overlap Filter leaves 13:15 and 14:15.
\<close>

theorem C3_two_survivors_throw:
  "survivingCandidates examplePrng [''1300'', ''1315''] examplePeople 15 ''abc'' exampleTimeMap
     = Inr [\<lparr>Candidate.date = ''1300'',
              people = [\<lparr>NameScore.name = ''ada'', score = 5\<rparr>], score = 5,
              rankedWins = None, fiveStars = 1, randomTieValue = 1 / 2\<rparr>,
            \<lparr>Candidate.date = ''1315'',
              people = [\<lparr>NameScore.name = ''bob'', score = 5\<rparr>], score = 5,
              rankedWins = None, fiveStars = 1, randomTieValue = 1 / 3\<rparr>]
   \<and> calculateBestTime examplePrng [''1300'', ''1315''] examplePeople 15 ''abc'' exampleTimeMap
       = Inl TooFewCandidates
   \<and> map_sum id (map Candidate.date)
         (survivingCandidates examplePrng exampleTimes examplePeople 60 ''abc'' exampleTimeMap)
       = Inr [''1315'', ''1415'']
   \<and> calculateBestTime examplePrng exampleTimes examplePeople 60 ''abc'' exampleTimeMap
       = Inl TooFewCandidates"
  by code_simp

text \<open>
  Claim C4 (the windows of the best time and of the runner-up never overlap) fails on the
  code. In the small event with a duration of 30 minutes five candidates tie on the score;
  the Overlap Filter picks 13:00 by ranked robin among these five and removes 13:15, and the
  scoring round, whose ranked robin runs among the four that are left, sends 13:30 and 13:45
  to the runoff: the start of the runner-up lies strictly inside the window of the best time.
\<close>

theorem C4_finalists_overlap:
  "calculateBestTime examplePrng exampleTimes examplePeople 30 ''abc'' exampleTimeMap =
     Inr \<lparr>bestTime = Some \<lparr>ResultTimeScore.time = ''1330'', score = Finite 5\<rparr>,
          nextBest = Some \<lparr>ResultTimeScore.time = ''1345'', score = Finite 5\<rparr>,
          preferredFraction = Some 0\<rparr>
   \<and> timeInsideRange (exampleTimeMap ''1345'')
         (exampleTimeMap ''1330'', exampleTimeMap ''1330'' + 30)"
  by code_simp

text \<open>
  Claim C10: with no people the result has no best time, no next best and no preferred
  fraction; the same holds when no candidate survives the Overlap Filter; and when exactly
  one candidate survives, the best time is that candidate, its score divided by the number
  of timeslots of the duration, and there is neither a next best nor a preferred fraction.
\<close>

theorem C10_degenerate:
  "calculateBestTime sr tms [] d eid tm
     = Inr \<lparr>bestTime = None, nextBest = None, preferredFraction = None\<rparr>
   \<and> (ps \<noteq> [] \<and> survivingCandidates sr tms ps d eid tm = Inr [] \<longrightarrow>
        calculateBestTime sr tms ps d eid tm
          = Inr \<lparr>bestTime = None, nextBest = None, preferredFraction = None\<rparr>)
   \<and> (ps \<noteq> [] \<and> survivingCandidates sr tms ps d eid tm = Inr [c] \<longrightarrow>
        calculateBestTime sr tms ps d eid tm
          = Inr \<lparr>bestTime =
                   Some \<lparr>ResultTimeScore.time = Candidate.date c,
                         score = js_div (Candidate.score c) (numTimeslots d)\<rparr>,
                 nextBest = None, preferredFraction = None\<rparr>
        \<and> (0 < d \<longrightarrow> js_div (Candidate.score c) (numTimeslots d)
                         = Finite (Candidate.score c / (of_nat d / 15))))"
  by (simp add: calculateBestTime_survivors calculateStarBest_def emptyResults_def js_div_def
      numTimeslots_def TIMESLOT_MINUTES_def)

theorem C10_degenerate_witness:
  "examplePeople \<noteq> []
   \<and> survivingCandidates examplePrng [] examplePeople 60 ''abc'' exampleTimeMap = Inr []
   \<and> calculateBestTime examplePrng [] examplePeople 60 ''abc'' exampleTimeMap
       = Inr \<lparr>bestTime = None, nextBest = None, preferredFraction = None\<rparr>
   \<and> survivingCandidates examplePrng (take 4 exampleTimes) examplePeople 60 ''abc''
         exampleTimeMap
       = Inr [\<lparr>Candidate.date = ''1300'',
                people = [\<lparr>NameScore.name = ''ada'', score = 5\<rparr>,
                          \<lparr>NameScore.name = ''bob'', score = 15\<rparr>],
                score = 20, rankedWins = None, fiveStars = 0, randomTieValue = 1 / 2\<rparr>]
   \<and> calculateBestTime examplePrng (take 4 exampleTimes) examplePeople 60 ''abc''
         exampleTimeMap
       = Inr \<lparr>bestTime = Some \<lparr>ResultTimeScore.time = ''1300'', score = Finite 5\<rparr>,
              nextBest = None, preferredFraction = None\<rparr>"
proof -
  let ?c = "\<lparr>Candidate.date = ''1300'',
             people = [\<lparr>NameScore.name = ''ada'', score = 5\<rparr>,
                       \<lparr>NameScore.name = ''bob'', score = 15\<rparr>],
             score = 20, rankedWins = None, fiveStars = 0, randomTieValue = 1 / 2\<rparr>"
  have p: "examplePeople \<noteq> []"
    by (simp add: examplePeople_def)
  have h0: "survivingCandidates examplePrng [] examplePeople 60 ''abc'' exampleTimeMap = Inr []"
    by code_simp
  have h1: "survivingCandidates examplePrng (take 4 exampleTimes) examplePeople 60 ''abc''
              exampleTimeMap = Inr [?c]"
    by code_simp
  have n: "js_div (Candidate.score ?c) (numTimeslots 60) = Finite 5"
    by code_simp
  from C10_degenerate [of examplePrng "[]" 60 "''abc''" exampleTimeMap examplePeople ?c] p h0
  have r0: "calculateBestTime examplePrng [] examplePeople 60 ''abc'' exampleTimeMap
              = Inr \<lparr>bestTime = None, nextBest = None, preferredFraction = None\<rparr>"
    by blast
  from C10_degenerate [of examplePrng "take 4 exampleTimes" 60 "''abc''" exampleTimeMap
      examplePeople ?c] p h1
  have r1: "calculateBestTime examplePrng (take 4 exampleTimes) examplePeople 60 ''abc''
              exampleTimeMap
            = Inr \<lparr>bestTime =
                      Some \<lparr>ResultTimeScore.time = Candidate.date ?c,
                            score = js_div (Candidate.score ?c) (numTimeslots 60)\<rparr>,
                    nextBest = None, preferredFraction = None\<rparr>"
    by blast
  from p h0 h1 r0 r1 n show ?thesis
    by simp
qed

subsection \<open>Candidate metrics\<close>

lemma simpleMetricsLoop_length:
  "length (simpleMetricsLoop g k n ts) = length ts"
  by (induction ts arbitrary: k) simp_all

lemma simpleMetricsLoop_draws:
  "map (\<lambda>x. snd (snd x)) (simpleMetricsLoop g k n ts) = map g [k..<k + length ts]"
proof (induction ts arbitrary: k)
  case Nil
  then show ?case by simp
next
  case (Cons t ts)
  have "[k..<k + length (t # ts)] = k # [Suc k..<Suc k + length ts]"
    by (simp add: upt_rec)
  with Cons show ?case by simp
qed

lemma calculateSimpleCandidateMetrics_random:
  "map randomTieValue (calculateSimpleCandidateMetrics sr avs d eid) = map (sr eid) [0..<length avs]"
proof -
  let ?l = "simpleMetricsLoop (sr eid) 0 (numTimeslots d) avs"
  have len: "length ?l = length avs"
    by (rule simpleMetricsLoop_length)
  have "map randomTieValue (calculateSimpleCandidateMetrics sr avs d eid)
          = map (\<lambda>(t, x). snd (snd x)) (zip avs ?l)"
    by (simp add: calculateSimpleCandidateMetrics_def case_prod_unfold)
  also have "\<dots> = map (\<lambda>x. snd (snd x)) (map snd (zip avs ?l))"
    by (simp add: case_prod_unfold)
  also have "\<dots> = map (\<lambda>x. snd (snd x)) ?l"
    using len by simp
  also have "\<dots> = map (sr eid) [0..<length avs]"
    using simpleMetricsLoop_draws [of "sr eid" 0 "numTimeslots d" avs] by simp
  finally show ?thesis .
qed

lemma calculateSimpleCandidateMetrics_date:
  "map Candidate.date (calculateSimpleCandidateMetrics sr avs d eid) = map Availability.date avs"
proof -
  let ?l = "simpleMetricsLoop (sr eid) 0 (numTimeslots d) avs"
  have len: "length ?l = length avs"
    by (rule simpleMetricsLoop_length)
  have "map Candidate.date (calculateSimpleCandidateMetrics sr avs d eid)
          = map Availability.date (map fst (zip avs ?l))"
    by (simp add: calculateSimpleCandidateMetrics_def case_prod_unfold)
  also have "\<dots> = map Availability.date avs"
    using len by simp
  finally show ?thesis .
qed

lemma calculateAvailability_date:
  "ps \<noteq> [] \<Longrightarrow> map Availability.date (calculateAvailability tms ps) = tms"
  by (simp add: calculateAvailability_def comp_def)

lemma replaceScoresWithFullScores_length:
  "length (replaceScoresWithFullScores tms ps d tm) = length ps"
  by (simp add: replaceScoresWithFullScores_def)

lemma initialCandidates_random:
  assumes "ps \<noteq> []"
  shows "map randomTieValue (initialCandidates sr tms ps d eid tm) = map (sr eid) [0..<length tms]"
    and "map Candidate.date (initialCandidates sr tms ps d eid tm) = tms"
proof -
  let ?full = "replaceScoresWithFullScores tms ps d tm"
  have ne: "?full \<noteq> []"
    using assms replaceScoresWithFullScores_length [of tms ps d tm] by auto
  have len: "length (calculateAvailability tms ?full) = length tms"
    using calculateAvailability_date [OF ne, of tms] by (metis length_map)
  show "map randomTieValue (initialCandidates sr tms ps d eid tm) = map (sr eid) [0..<length tms]"
    by (simp add: initialCandidates_def calculateSimpleCandidateMetrics_random len)
  show "map Candidate.date (initialCandidates sr tms ps d eid tm) = tms"
    by (simp add: initialCandidates_def calculateSimpleCandidateMetrics_date
        calculateAvailability_date [OF ne])
qed

text \<open>
  Claim C9: the random tie values of the candidates are the first draws of the generator
  seeded with the event identifier, one per candidate in index order, whatever the labels,
  the people and the duration are; and two calls of \<^verbatim>\<open>calculateBestTime\<close> with the
  same labels, people, duration and event identifier (and the time map computed from the
  labels) return the same result or the same error.
\<close>

theorem C9_deterministic:
  "map randomTieValue (calculateSimpleCandidateMetrics sr avs d eid)
     = map (sr eid) [0..<length avs]
   \<and> (ps \<noteq> [] \<longrightarrow>
        map randomTieValue (initialCandidates sr tms ps d eid tm)
          = map (sr eid) [0..<length tms])
   \<and> (ps \<noteq> [] \<and> ps2 \<noteq> [] \<and> length tms2 = length tms \<longrightarrow>
        map randomTieValue (initialCandidates sr tms2 ps2 d2 eid tm2)
          = map randomTieValue (initialCandidates sr tms ps d eid tm))
   \<and> (tms2 = tms \<and> ps2 = ps \<and> d2 = d \<and> eid2 = eid \<longrightarrow>
        calculateBestTime sr tms2 ps2 d2 eid2 tm = calculateBestTime sr tms ps d eid tm)"
  by (simp add: calculateSimpleCandidateMetrics_random initialCandidates_random)

theorem C9_deterministic_witness:
  "examplePeople \<noteq> [] \<and> take 1 examplePeople \<noteq> []
   \<and> length (rev exampleTimes) = length exampleTimes
   \<and> map randomTieValue
         (initialCandidates examplePrng (rev exampleTimes) (take 1 examplePeople) 60 ''abc''
            (\<lambda>t. 0))
       = map randomTieValue
           (initialCandidates examplePrng exampleTimes examplePeople 30 ''abc'' exampleTimeMap)
   \<and> map randomTieValue
         (initialCandidates examplePrng exampleTimes examplePeople 30 ''abc'' exampleTimeMap)
       = [1 / 2, 1 / 3, 1 / 4, 1 / 5, 1 / 6, 1 / 7]"
proof -
  have p: "examplePeople \<noteq> []" "take 1 examplePeople \<noteq> []"
    by (simp_all add: examplePeople_def)
  have l: "length (rev exampleTimes) = length exampleTimes"
    by simp
  have v: "map (examplePrng ''abc'') [0..<length exampleTimes]
             = [1 / 2, 1 / 3, 1 / 4, 1 / 5, 1 / 6, 1 / 7]"
    by code_simp
  from C9_deterministic [of examplePrng "[]" 30 "''abc''" examplePeople exampleTimes
      exampleTimeMap "take 1 examplePeople" "rev exampleTimes" 60 "\<lambda>t. 0" "''abc''"] p l v
  show ?thesis
    by simp
qed

subsection \<open>Ranked robin between a pair\<close>

lemma personScore_absent:
  "n \<notin> NameScore.name ` set xs \<Longrightarrow> personScore n xs = 0"
proof -
  assume "n \<notin> NameScore.name ` set xs"
  then have "find (\<lambda>p. NameScore.name p = n) xs = None"
    by (auto simp: find_None_iff)
  then show ?thesis
    by (simp add: personScore_def)
qed

lemma personScore_nonneg:
  assumes "\<forall>p \<in> set xs. 0 < NameScore.score p"
  shows "0 \<le> personScore n xs"
proof (cases "find (\<lambda>p. NameScore.name p = n) xs")
  case None
  then show ?thesis by (simp add: personScore_def)
next
  case (Some p)
  then have "p \<in> set xs"
    by (auto simp: find_Some_iff in_set_conv_nth)
  with assms Some show ?thesis
    by (simp add: personScore_def less_imp_le)
qed

lemma winsItFor_names:
  assumes "\<forall>p \<in> set b. 0 < NameScore.score p" and "winsItFor n a b"
  shows "n \<in> NameScore.name ` set a"
proof (rule ccontr)
  assume "n \<notin> NameScore.name ` set a"
  then have "personScore n a = 0"
    by (rule personScore_absent)
  with assms(2) have "personScore n b < 0"
    by (simp add: winsItFor_def)
  with personScore_nonneg [OF assms(1), of n] show False
    by simp
qed

lemma winsItFor_Cons_other:
  "n \<noteq> NameScore.name x \<Longrightarrow> winsItFor n (x # rest) b = winsItFor n rest b"
  by (simp add: winsItFor_def personScore_def)

lemma winsItFor_Cons_same:
  assumes "0 < NameScore.score x" and "\<forall>p \<in> set b. 0 < NameScore.score p"
  shows "winsItFor (NameScore.name x) (x # rest) b \<longleftrightarrow>
         (case find (\<lambda>p. NameScore.name p = NameScore.name x) b of
            None \<Rightarrow> True
          | Some bNameScore \<Rightarrow> NameScore.score bNameScore < NameScore.score x)"
proof (cases "find (\<lambda>p. NameScore.name p = NameScore.name x) b")
  case None
  then have "personScore (NameScore.name x) b = 0"
    by (simp add: personScore_def)
  with assms(1) None show ?thesis
    by (simp add: winsItFor_def personScore_def)
next
  case (Some q)
  then have "q \<in> set b"
    by (auto simp: find_Some_iff in_set_conv_nth)
  with assms(2) have "0 < NameScore.score q" by simp
  with Some assms(1) show ?thesis
    by (simp add: winsItFor_def personScore_def)
qed

lemma rankedWinsBetweenPair_card:
  assumes "distinct (map NameScore.name a)"
    and "\<forall>p \<in> set a. 0 < NameScore.score p"
    and "\<forall>p \<in> set b. 0 < NameScore.score p"
  shows "calculateRankedWinsBetweenPair a b = card {n. winsItFor n a b}"
  using assms(1,2)
proof (induction a)
  case Nil
  have "{n. winsItFor n [] b} = {}"
    using winsItFor_names [OF assms(3), of _ "[]"] by auto
  then show ?case by simp
next
  case (Cons x rest)
  let ?W = "{n. winsItFor n rest b}"
  have fin: "finite ?W"
  proof (rule finite_subset)
    show "?W \<subseteq> NameScore.name ` set rest"
      using winsItFor_names [OF assms(3), of _ rest] by auto
  qed simp
  have notin: "NameScore.name x \<notin> ?W"
    using winsItFor_names [OF assms(3), of "NameScore.name x" rest] Cons.prems(1) by auto
  have ih: "calculateRankedWinsBetweenPair rest b = card ?W"
    using Cons by simp
  have pos: "0 < NameScore.score x"
    using Cons.prems(2) by simp
  let ?won = "case find (\<lambda>p. NameScore.name p = NameScore.name x) b of
                None \<Rightarrow> True
              | Some bNameScore \<Rightarrow> NameScore.score bNameScore < NameScore.score x"
  have step: "calculateRankedWinsBetweenPair (x # rest) b
                = (if ?won then 1 else 0) + calculateRankedWinsBetweenPair rest b"
    by (simp split: option.splits)
  have won: "winsItFor (NameScore.name x) (x # rest) b \<longleftrightarrow> ?won"
    by (rule winsItFor_Cons_same [OF pos assms(3)])
  show ?case
  proof (cases "winsItFor (NameScore.name x) (x # rest) b")
    case True
    have "{n. winsItFor n (x # rest) b} = insert (NameScore.name x) ?W"
      using True notin winsItFor_Cons_other [of _ x rest b] by (auto, metis)
    then have "card {n. winsItFor n (x # rest) b} = Suc (card ?W)"
      using fin notin by simp
    moreover have "calculateRankedWinsBetweenPair (x # rest) b = Suc (card ?W)"
      using True won ih step by simp
    ultimately show ?thesis by simp
  next
    case False
    have "{n. winsItFor n (x # rest) b} = ?W"
      using False notin winsItFor_Cons_other [of _ x rest b] by (auto, metis+)
    moreover have "calculateRankedWinsBetweenPair (x # rest) b = card ?W"
      using False won ih step by simp
    ultimately show ?thesis by simp
  qed
qed

text \<open>
  Claim C7: in the tally of a pair \<open>(A, B)\<close> every person contributes one win to \<open>A\<close>
  exactly when their score for \<open>A\<close> exceeds their score for \<open>B\<close>, or their score for
  \<open>B\<close> is absent (zero) while their score for \<open>A\<close> is present and not zero; a person whose
  score is absent for both contributes to neither side. The lists of people hold positive
  scores only (zero scores are not kept) and one entry per person.
\<close>

theorem C7_pairwise_tally:
  assumes "distinct (map NameScore.name a)"
    and "\<forall>p \<in> set a. 0 < NameScore.score p"
    and "\<forall>p \<in> set b. 0 < NameScore.score p"
  shows "calculateRankedWinsBetweenPair a b = card {n. winsItFor n a b}
         \<and> (\<forall>n. personScore n a = 0 \<and> personScore n b = 0 \<longrightarrow>
                n \<notin> {n. winsItFor n a b} \<and> n \<notin> {n. winsItFor n b a})"
  using rankedWinsBetweenPair_card [OF assms] by (simp add: winsItFor_def)

theorem C7_pairwise_tally_witness:
  "distinct (map NameScore.name examplePeopleA)
   \<and> list_all (\<lambda>p. 0 < NameScore.score p) examplePeopleA
   \<and> list_all (\<lambda>p. 0 < NameScore.score p) examplePeopleB
   \<and> calculateRankedWinsBetweenPair examplePeopleA examplePeopleB
       = card {n. winsItFor n examplePeopleA examplePeopleB}
   \<and> calculateRankedWinsBetweenPair examplePeopleA examplePeopleB = 1"
proof -
  have d: "distinct (map NameScore.name examplePeopleA)"
    by (simp add: examplePeopleA_def)
  have a: "\<forall>p \<in> set examplePeopleA. 0 < NameScore.score p"
    by (simp add: examplePeopleA_def)
  have b: "\<forall>p \<in> set examplePeopleB. 0 < NameScore.score p"
    by (simp add: examplePeopleB_def)
  have v: "calculateRankedWinsBetweenPair examplePeopleA examplePeopleB = 1"
    by (simp add: examplePeopleA_def examplePeopleB_def)
  from C7_pairwise_tally [OF d a b] d a b v show ?thesis
    by (simp add: list_all_iff)
qed

subsection \<open>Duration aggregator\<close>

lemma slice_from_numTimeslots:
  "slice_from idx (numTimeslots d) xs = take (d div 15) (drop idx xs)"
proof -
  have "\<lfloor>(of_nat d :: rat) / of_nat 15\<rfloor> = int (d div 15)"
    by (rule floor_divide_of_nat_eq)
  then show ?thesis
    by (simp add: slice_from_def numTimeslots_def TIMESLOT_MINUTES_def)
qed

lemma grid_step:
  fixes a b :: int
  shows "15 dvd a \<Longrightarrow> 15 dvd b \<Longrightarrow> a < b \<Longrightarrow> a + 15 \<le> b"
  by presburger

lemma grid_spacing:
  assumes srt: "sorted (map FullSlot.timeObj fa)"
    and dst: "distinct (map FullSlot.timeObj fa)"
    and grd: "\<forall>s \<in> set fa. 15 dvd FullSlot.timeObj s"
  shows "i + k < length fa \<Longrightarrow>
         FullSlot.timeObj (fa ! i) + 15 * int k \<le> FullSlot.timeObj (fa ! (i + k))"
proof (induction k)
  case 0
  then show ?case by simp
next
  case (Suc k)
  let ?t = "\<lambda>j. FullSlot.timeObj (fa ! j)"
  from Suc have ih: "?t i + 15 * int k \<le> ?t (i + k)"
    by simp
  have strict: "sorted_wrt (<) (map FullSlot.timeObj fa)"
    using srt dst by (simp add: strict_sorted_iff)
  have "map FullSlot.timeObj fa ! (i + k) < map FullSlot.timeObj fa ! (i + Suc k)"
    using sorted_wrt_nth_less [OF strict, of "i + k" "i + Suc k"] Suc.prems by simp
  then have lt: "?t (i + k) < ?t (i + Suc k)"
    using Suc.prems by simp
  have "15 dvd ?t (i + k)" "15 dvd ?t (i + Suc k)"
    using grd Suc.prems by simp_all
  with lt have "?t (i + k) + 15 \<le> ?t (i + Suc k)"
    by (rule_tac grid_step)
  with ih show ?case by simp
qed

lemma window_inside_slice:
  assumes srt: "sorted (map FullSlot.timeObj fa)"
    and dst: "distinct (map FullSlot.timeObj fa)"
    and grd: "\<forall>s \<in> set fa. 15 dvd FullSlot.timeObj s"
    and dur: "15 dvd d"
    and idx: "idx < length fa"
  shows "filter (\<lambda>a2. timeInsideRange (FullSlot.timeObj a2)
                   (FullSlot.timeObj (fa ! idx), FullSlot.timeObj (fa ! idx) + int d))
           (take (d div 15) (drop idx fa))
         = filter (\<lambda>a2. timeInsideRange (FullSlot.timeObj a2)
                     (FullSlot.timeObj (fa ! idx), FullSlot.timeObj (fa ! idx) + int d)) fa"
proof -
  let ?t = "FullSlot.timeObj (fa ! idx)"
  let ?P = "\<lambda>a2. timeInsideRange (FullSlot.timeObj a2) (?t, ?t + int d)"
  let ?n = "d div 15"
  have "drop idx fa = take ?n (drop idx fa) @ drop ?n (drop idx fa)"
    by (rule append_take_drop_id [symmetric])
  then have split: "fa = take idx fa @ take ?n (drop idx fa) @ drop ?n (drop idx fa)"
    by (metis append_take_drop_id)
  have before: "filter ?P (take idx fa) = []"
  proof -
    have "\<not> ?P s" if "s \<in> set (take idx fa)" for s
    proof -
      from that obtain i where i: "i < idx" "s = fa ! i"
        using idx by (auto simp: in_set_conv_nth)
      have "map FullSlot.timeObj fa ! i \<le> map FullSlot.timeObj fa ! idx"
        using srt i(1) idx by (intro sorted_nth_mono) simp_all
      then have "FullSlot.timeObj s \<le> ?t"
        using i idx by simp
      then show ?thesis
        by (simp add: timeInsideRange_def)
    qed
    then show ?thesis
      by (simp add: filter_empty_conv)
  qed
  have after: "filter ?P (drop ?n (drop idx fa)) = []"
  proof -
    have "\<not> ?P s" if "s \<in> set (drop ?n (drop idx fa))" for s
    proof -
      from that have "s \<in> set (drop (idx + ?n) fa)"
        by (simp add: add.commute)
      then obtain j where j: "j < length fa - (idx + ?n)" "s = fa ! (idx + ?n + j)"
        by (auto simp: in_set_conv_nth)
      then have "idx + (?n + j) < length fa"
        by simp
      from grid_spacing [OF srt dst grd this]
      have "?t + 15 * int (?n + j) \<le> FullSlot.timeObj (fa ! (idx + (?n + j)))" .
      moreover have "15 * int ?n = int d"
        using dur by (metis dvd_mult_div_cancel of_nat_mult of_nat_numeral)
      ultimately have "?t + int d \<le> FullSlot.timeObj s"
        using j(2) by (simp add: add.assoc)
      then show ?thesis
        by (simp add: timeInsideRange_def)
    qed
    then show ?thesis
      by (simp add: filter_empty_conv)
  qed
  have "filter ?P fa = filter ?P (take idx fa @ take ?n (drop idx fa) @ drop ?n (drop idx fa))"
    using split by simp
  also have "\<dots> = filter ?P (take ?n (drop idx fa))"
    using before after by simp
  finally show ?thesis by simp
qed

text \<open>
  Claim C6: on a dense array of timeslots that is sorted by time, has no time twice and
  holds quarter-hour timeslots (every time is a multiple of 15 minutes), and for a duration
  that is a multiple of 15 minutes, the score computed from the slice of the next
  \<open>duration / 15\<close> positions equals the reference score computed from the whole array.
\<close>

theorem C6_bounded_lookahead:
  assumes "sorted (map FullSlot.timeObj fa)"
    and "distinct (map FullSlot.timeObj fa)"
    and "\<forall>s \<in> set fa. 15 dvd FullSlot.timeObj s"
    and "15 dvd d"
    and "idx < length fa"
  shows "fullScoreAt fa d idx = naiveScoreAt fa d idx"
  using window_inside_slice [OF assms]
  by (simp add: fullScoreAt_def naiveScoreAt_def Let_def slice_from_numTimeslots)

theorem C6_bounded_lookahead_witness:
  "sorted (map FullSlot.timeObj exampleSlots) \<and> distinct (map FullSlot.timeObj exampleSlots)
   \<and> list_all (\<lambda>s. 15 dvd FullSlot.timeObj s) exampleSlots
   \<and> (15 :: nat) dvd 30 \<and> 1 < length exampleSlots
   \<and> fullScoreAt exampleSlots 30 1 = naiveScoreAt exampleSlots 30 1
   \<and> naiveScoreAt exampleSlots 30 1 = 7"
proof -
  have s: "sorted (map FullSlot.timeObj exampleSlots)"
    and d: "distinct (map FullSlot.timeObj exampleSlots)"
    and g: "\<forall>s \<in> set exampleSlots. 15 dvd FullSlot.timeObj s"
    and i: "1 < length exampleSlots"
    by (simp_all add: exampleSlots_def)
  have m: "(15 :: nat) dvd 30"
    by simp
  have v: "naiveScoreAt exampleSlots 30 1 = 7"
    by (simp add: naiveScoreAt_def exampleSlots_def timeInsideRange_def)
  from C6_bounded_lookahead [OF s d g m i] s d g m i v show ?thesis
    by (simp add: list_all_iff)
qed

subsection \<open>Ranked wins of a pool\<close>

lemma sameCandidate_refl: "sameCandidate c c"
  by (simp add: sameCandidate_def)

lemma sameCandidate_update: "sameCandidate c (c\<lparr>rankedWins := w\<rparr>)"
  by (simp add: sameCandidate_def)

lemma sameCandidate_trans:
  "sameCandidate a b \<Longrightarrow> sameCandidate b c \<Longrightarrow> sameCandidate a c"
  by (cases a, cases b, cases c) (simp add: sameCandidate_def)

lemma sameCandidate_fields:
  assumes "sameCandidate c c'"
  shows "Candidate.date c' = Candidate.date c" "Candidate.people c' = Candidate.people c"
    "Candidate.score c' = Candidate.score c" "fiveStars c' = fiveStars c"
    "randomTieValue c' = randomTieValue c"
  using assms by (cases c, cases c', simp add: sameCandidate_def)+

text \<open>The outer loop after \<open>k\<close> iterations.\<close>

lemma rankedWinsOuter_fold:
  assumes "k \<le> length cands"
  shows "length (fst (fold rankedWinsOuter [0..<k] (cands, rw))) = length cands
         \<and> (\<forall>j < length cands.
               sameCandidate (cands ! j) (fst (fold rankedWinsOuter [0..<k] (cands, rw)) ! j)
               \<and> (j < k \<longrightarrow> rankedWins (fst (fold rankedWinsOuter [0..<k] (cands, rw)) ! j) \<noteq> None))"
  using assms
proof (induction k)
  case 0
  then show ?case by (simp add: sameCandidate_refl)
next
  case (Suc k)
  let ?st = "fold rankedWinsOuter [0..<k] (cands, rw)"
  let ?cs = "fst ?st"
  from Suc have len: "length ?cs = length cands"
    and same: "\<And>j. j < length cands \<Longrightarrow> sameCandidate (cands ! j) (?cs ! j)"
    and fin: "\<And>j. j < length cands \<Longrightarrow> j < k \<Longrightarrow> rankedWins (?cs ! j) \<noteq> None"
    by simp_all
  let ?w = "rankedWinsInner ?cs k (snd ?st) ! k"
  have step: "fst (fold rankedWinsOuter [0..<Suc k] (cands, rw))
                = ?cs[k := (?cs ! k)\<lparr>rankedWins := Some ?w\<rparr>]"
    by (simp add: rankedWinsOuter_def Let_def)
  have k: "k < length cands"
    using Suc.prems by simp
  show ?case
  proof (intro conjI allI impI)
    show "length (fst (fold rankedWinsOuter [0..<Suc k] (cands, rw))) = length cands"
      using step len by simp
  next
    fix j assume j: "j < length cands"
    show "sameCandidate (cands ! j) (fst (fold rankedWinsOuter [0..<Suc k] (cands, rw)) ! j)"
    proof (cases "j = k")
      case True
      have "sameCandidate (?cs ! k) ((?cs ! k)\<lparr>rankedWins := Some ?w\<rparr>)"
        by (rule sameCandidate_update)
      with same [OF k] have "sameCandidate (cands ! k) ((?cs ! k)\<lparr>rankedWins := Some ?w\<rparr>)"
        by (rule sameCandidate_trans)
      with True k len step show ?thesis by simp
    next
      case False
      with same [OF j] step show ?thesis by simp
    qed
  next
    fix j assume j: "j < length cands" and jk: "j < Suc k"
    show "rankedWins (fst (fold rankedWinsOuter [0..<Suc k] (cands, rw)) ! j) \<noteq> None"
    proof (cases "j = k")
      case True
      with k len step show ?thesis by simp
    next
      case False
      with jk have "j < k" by simp
      with fin [OF j] False step show ?thesis by simp
    qed
  qed
qed

lemma calculateRankedWins_length:
  "length (calculateRankedWins cands) = length cands"
  using rankedWinsOuter_fold [of "length cands" cands]
  by (simp add: calculateRankedWins_def)

lemma calculateRankedWins_nth:
  assumes "j < length cands"
  shows "sameCandidate (cands ! j) (calculateRankedWins cands ! j)"
    and "rankedWins (calculateRankedWins cands ! j) \<noteq> None"
  using rankedWinsOuter_fold [of "length cands" cands] assms
  by (simp_all add: calculateRankedWins_def)

lemma calculateRankedWins_pair:
  "calculateRankedWins [x, y]
     = [x\<lparr>rankedWins := Some (calculateRankedWinsBetweenPair (Candidate.people x) (Candidate.people y))\<rparr>,
        y\<lparr>rankedWins := Some (calculateRankedWinsBetweenPair (Candidate.people y) (Candidate.people x))\<rparr>]"
proof -
  have u: "[0..<length [x, y]] = [0, Suc 0]" "[Suc 0..<length [x, y]] = [Suc 0]"
    "[Suc (Suc 0)..<length [x, y]] = []"
    by (simp_all add: upt_rec)
  show ?thesis
    by (simp add: calculateRankedWins_def rankedWinsOuter_def rankedWinsInner_def u Let_def)
qed

lemma calculateRankedWins_member:
  assumes "c' \<in> set (calculateRankedWins cands)"
  shows "\<exists>c \<in> set cands. sameCandidate c c'" and "rankedWins c' \<noteq> None"
proof -
  from assms obtain j where j: "j < length cands" "c' = calculateRankedWins cands ! j"
    by (auto simp: in_set_conv_nth calculateRankedWins_length)
  from calculateRankedWins_nth [OF j(1)] j
  show "\<exists>c \<in> set cands. sameCandidate c c'" and "rankedWins c' \<noteq> None"
    by auto
qed

lemma calculateRankedWins_random:
  "map randomTieValue (calculateRankedWins cands) = map randomTieValue cands"
proof (rule nth_equalityI)
  show "length (map randomTieValue (calculateRankedWins cands)) = length (map randomTieValue cands)"
    by (simp add: calculateRankedWins_length)
next
  fix i assume "i < length (map randomTieValue (calculateRankedWins cands))"
  then have i: "i < length cands"
    by (simp add: calculateRankedWins_length)
  from sameCandidate_fields(5) [OF calculateRankedWins_nth(1) [OF i]] i
  show "map randomTieValue (calculateRankedWins cands) ! i = map randomTieValue cands ! i"
    by (simp add: calculateRankedWins_length)
qed

lemma roundPool_length: "length (roundPool rt cands) = length cands"
  by (simp add: roundPool_def calculateRankedWins_length)

lemma roundPool_member:
  "c' \<in> set (roundPool rt cands) \<Longrightarrow> \<exists>c \<in> set cands. sameCandidate c c'"
  using calculateRankedWins_member(1) [of c' cands] sameCandidate_refl
  by (auto simp: roundPool_def split: if_splits)

lemma roundPool_random:
  "map randomTieValue (roundPool rt cands) = map randomTieValue cands"
  by (simp add: roundPool_def calculateRankedWins_random)

lemma roundPool_metric:
  assumes "c \<in> set (roundPool rt cands)"
  shows "getMetric c rt = Inr (scoringFunc rt c)"
proof (cases rt)
  case RankedRobin
  with assms have "rankedWins c \<noteq> None"
    using calculateRankedWins_member(2) [of c cands] by (simp add: roundPool_def)
  with RankedRobin show ?thesis
    by (auto simp: getMetric_def scoringFunc_def)
qed (simp_all add: getMetric_def scoringFunc_def)

text \<open>
  The ranked wins of a candidate are the sum, over all other candidates of the pool, of its
  wins in the tally of the pair.
\<close>

lemma pair_fold_upto:
  fixes P :: "nat \<Rightarrow> nat \<Rightarrow> nat"
  assumes "i < n" and "length rw = n" and "k \<le> n"
  shows "length (fold (\<lambda>j rw. rw[i := rw ! i + P i j, j := rw[i := rw ! i + P i j] ! j + P j i])
                   [Suc i..<k] rw) = n
         \<and> (\<forall>a < n.
               fold (\<lambda>j rw. rw[i := rw ! i + P i j, j := rw[i := rw ! i + P i j] ! j + P j i])
                 [Suc i..<k] rw ! a
               = rw ! a + (if a = i then (\<Sum>j \<in> {Suc i..<k}. P i j)
                           else if Suc i \<le> a \<and> a < k then P a i else 0))"
  using assms(3)
proof (induction k)
  case 0
  then show ?case using assms(2) by simp
next
  case (Suc k)
  define step where "step = (\<lambda>j rw. rw[i := rw ! i + P i j, j := rw[i := rw ! i + P i j] ! j + P j i])"
  define prev where "prev = fold step [Suc i..<k] rw"
  have ih: "length prev = n
            \<and> (\<forall>a < n. prev ! a = rw ! a + (if a = i then (\<Sum>j \<in> {Suc i..<k}. P i j)
                                             else if Suc i \<le> a \<and> a < k then P a i else 0))"
    unfolding prev_def step_def by (rule Suc.IH) (use Suc.prems in simp)
  then have len: "length prev = n"
    and val: "\<And>a. a < n \<Longrightarrow> prev ! a = rw ! a + (if a = i then (\<Sum>j \<in> {Suc i..<k}. P i j)
                                             else if Suc i \<le> a \<and> a < k then P a i else 0)"
    by simp_all
  have goal: "length (fold step [Suc i..<Suc k] rw) = n
         \<and> (\<forall>a < n. fold step [Suc i..<Suc k] rw ! a
               = rw ! a + (if a = i then (\<Sum>j \<in> {Suc i..<Suc k}. P i j)
                           else if Suc i \<le> a \<and> a < Suc k then P a i else 0))"
  proof (cases "Suc i \<le> k")
    case False
    then have e1: "[Suc i..<Suc k] = []" and e2: "{Suc i..<Suc k} = {}"
      by simp_all
    have f: "fold step [Suc i..<Suc k] rw = rw"
      unfolding e1 by simp
    show ?thesis
      unfolding f e2 using assms(2) False by auto
  next
    case True
    have upt: "[Suc i..<Suc k] = [Suc i..<k] @ [k]"
      using True by simp
    have nxt: "fold step [Suc i..<Suc k] rw = step k prev"
      unfolding upt prev_def by simp
    have k: "k < n" "i < k" "i \<noteq> k"
      using Suc.prems True by simp_all
    have sum: "{Suc i..<Suc k} = insert k {Suc i..<k}"
      using True by auto
    have sk: "step k prev = prev[i := prev ! i + P i k, k := prev[i := prev ! i + P i k] ! k + P k i]"
      by (simp add: step_def)
    show ?thesis
    proof (intro conjI allI impI)
      show "length (fold step [Suc i..<Suc k] rw) = n"
        unfolding nxt sk using len by simp
    next
      fix a assume a: "a < n"
      consider "a = i" | "a = k" | "a \<noteq> i" "a \<noteq> k"
        by blast
      then show "fold step [Suc i..<Suc k] rw ! a
               = rw ! a + (if a = i then (\<Sum>j \<in> {Suc i..<Suc k}. P i j)
                           else if Suc i \<le> a \<and> a < Suc k then P a i else 0)"
      proof cases
        case 1
        then show ?thesis
          unfolding nxt sk using k len assms(1) val [of i] by (simp add: sum)
      next
        case 2
        then show ?thesis
          unfolding nxt sk using k len val [of k] by simp
      next
        case 3
        then show ?thesis
          unfolding nxt sk using k len a val [of a] by auto
      qed
    qed
  qed
  then show ?case
    unfolding step_def .
qed


lemma rankedWinsOuter_closed:
  fixes cands :: "Candidate list" and P :: "nat \<Rightarrow> nat \<Rightarrow> nat"
  assumes n: "n = length cands"
    and P: "P = (\<lambda>a b. calculateRankedWinsBetweenPair
                          (Candidate.people (cands ! a)) (Candidate.people (cands ! b)))"
    and "i \<le> n"
  shows "length (fst (fold rankedWinsOuter [0..<i] (cands, replicate n 0))) = n
         \<and> length (snd (fold rankedWinsOuter [0..<i] (cands, replicate n 0))) = n
         \<and> (\<forall>a < n.
               snd (fold rankedWinsOuter [0..<i] (cands, replicate n 0)) ! a
                 = (if a < i then (\<Sum>j \<in> {0..<n} - {a}. P a j) else (\<Sum>j \<in> {0..<i}. P a j))
               \<and> fst (fold rankedWinsOuter [0..<i] (cands, replicate n 0)) ! a
                 = (if a < i then (cands ! a)\<lparr>rankedWins := Some (\<Sum>j \<in> {0..<n} - {a}. P a j)\<rparr>
                    else cands ! a))"
  using assms(3)
proof (induction i)
  case 0
  then show ?case by (simp add: n)
next
  case (Suc i)
  define st where "st = fold rankedWinsOuter [0..<i] (cands, replicate n 0)"
  define cs where "cs = fst st"
  define rw where "rw = snd st"
  have i: "i < n"
    using Suc.prems by simp
  have ih: "length cs = n \<and> length rw = n
         \<and> (\<forall>a < n.
               rw ! a = (if a < i then (\<Sum>j \<in> {0..<n} - {a}. P a j) else (\<Sum>j \<in> {0..<i}. P a j))
               \<and> cs ! a = (if a < i then (cands ! a)\<lparr>rankedWins := Some (\<Sum>j \<in> {0..<n} - {a}. P a j)\<rparr>
                           else cands ! a))"
    unfolding cs_def rw_def st_def by (rule Suc.IH) (use i in simp)
  then have lcs: "length cs = n" and lrw: "length rw = n"
    and rwv: "\<And>a. a < n \<Longrightarrow> rw ! a = (if a < i then (\<Sum>j \<in> {0..<n} - {a}. P a j)
                                         else (\<Sum>j \<in> {0..<i}. P a j))"
    and csv: "\<And>a. a < n \<Longrightarrow> cs ! a = (if a < i then (cands ! a)\<lparr>rankedWins := Some (\<Sum>j \<in> {0..<n} - {a}. P a j)\<rparr>
                                         else cands ! a)"
    by simp_all
  have people: "Candidate.people (cs ! a) = Candidate.people (cands ! a)" if "a < n" for a
    using csv [OF that] by simp
  define Q where "Q = (\<lambda>a b. calculateRankedWinsBetweenPair
                               (Candidate.people (cs ! a)) (Candidate.people (cs ! b)))"
  have QP: "Q a b = P a b" if "a < n" "b < n" for a b
    using people [OF that(1)] people [OF that(2)] by (simp add: Q_def P)
  define rw' where "rw' = rankedWinsInner cs i rw"
  have inner: "rw' = fold (\<lambda>j rw. rw[i := rw ! i + Q i j, j := rw[i := rw ! i + Q i j] ! j + Q j i])
                       [Suc i..<n] rw"
    by (simp add: rw'_def rankedWinsInner_def Let_def Q_def lcs)
  from pair_fold_upto [OF i lrw order_refl, of Q]
  have lrw': "length rw' = n"
    and rwv': "\<And>a. a < n \<Longrightarrow> rw' ! a = rw ! a + (if a = i then (\<Sum>j \<in> {Suc i..<n}. Q i j)
                                                 else if Suc i \<le> a \<and> a < n then Q a i else 0)"
    unfolding inner by simp_all
  have sumQ: "(\<Sum>j \<in> {Suc i..<n}. Q i j) = (\<Sum>j \<in> {Suc i..<n}. P i j)"
    using i by (intro sum.cong) (simp_all add: QP)
  have split: "{0..<n} - {i} = {0..<i} \<union> {Suc i..<n}"
    using i by auto
  have total: "(\<Sum>j \<in> {0..<n} - {i}. P i j) = (\<Sum>j \<in> {0..<i}. P i j) + (\<Sum>j \<in> {Suc i..<n}. P i j)"
    unfolding split by (rule sum.union_disjoint) auto
  have nxt: "fold rankedWinsOuter [0..<Suc i] (cands, replicate n 0)
               = (cs[i := (cs ! i)\<lparr>rankedWins := Some (rw' ! i)\<rparr>], rw')"
    by (simp add: rankedWinsOuter_def Let_def st_def [symmetric] cs_def [symmetric]
        rw_def [symmetric] rw'_def)
  have rwi: "rw' ! i = (\<Sum>j \<in> {0..<n} - {i}. P i j)"
    using rwv' [OF i] rwv [OF i] sumQ total by simp
  show ?case
    unfolding nxt
  proof (intro conjI allI impI)
    show "length (fst (cs[i := (cs ! i)\<lparr>rankedWins := Some (rw' ! i)\<rparr>], rw')) = n"
      using lcs by simp
    show "length (snd (cs[i := (cs ! i)\<lparr>rankedWins := Some (rw' ! i)\<rparr>], rw')) = n"
      using lrw' by simp
  next
    fix a assume a: "a < n"
    show "snd (cs[i := (cs ! i)\<lparr>rankedWins := Some (rw' ! i)\<rparr>], rw') ! a
            = (if a < Suc i then (\<Sum>j \<in> {0..<n} - {a}. P a j) else (\<Sum>j \<in> {0..<Suc i}. P a j))"
    proof -
      consider "a < i" | "a = i" | "i < a"
        by linarith
      then show ?thesis
      proof cases
        case 1
        then show ?thesis
          using rwv' [OF a] rwv [OF a] by simp
      next
        case 2
        then show ?thesis
          using rwi by simp
      next
        case 3
        then show ?thesis
          using rwv' [OF a] rwv [OF a] a i QP [OF a i] by simp
      qed
    qed
    show "fst (cs[i := (cs ! i)\<lparr>rankedWins := Some (rw' ! i)\<rparr>], rw') ! a
            = (if a < Suc i then (cands ! a)\<lparr>rankedWins := Some (\<Sum>j \<in> {0..<n} - {a}. P a j)\<rparr>
               else cands ! a)"
    proof (cases "a = i")
      case True
      then show ?thesis
        using csv [OF i] lcs i rwi by simp
    next
      case False
      then show ?thesis
        using csv [OF a] lcs by auto
    qed
  qed
qed

lemma calculateRankedWins_closed:
  assumes "i < length cands"
  shows "calculateRankedWins cands ! i
         = (cands ! i)\<lparr>rankedWins :=
              Some (\<Sum>j \<in> {0..<length cands} - {i}.
                      calculateRankedWinsBetweenPair
                        (Candidate.people (cands ! i)) (Candidate.people (cands ! j)))\<rparr>"
  using rankedWinsOuter_closed [OF refl refl order_refl, of cands] assms
  by (simp add: calculateRankedWins_def)

subsection \<open>Mini rounds\<close>

lemma desc_nth_mono:
  fixes f :: "'a \<Rightarrow> rat"
  assumes "sorted (map (\<lambda>c. - f c) xs)" and "i \<le> j" and "j < length xs"
  shows "f (xs ! j) \<le> f (xs ! i)"
proof -
  have "map (\<lambda>c. - f c) xs ! i \<le> map (\<lambda>c. - f c) xs ! j"
    using assms by (intro sorted_nth_mono) simp_all
  with assms show ?thesis by simp
qed

lemma beat_count_le:
  fixes f :: "'a \<Rightarrow> rat"
  assumes srt: "sorted (map (\<lambda>c. - f c) xs)" and n: "n < length xs"
  shows "length (filter (\<lambda>c. f (xs ! n) < f c) xs) \<le> n"
proof -
  let ?P = "\<lambda>c. f (xs ! n) < f c"
  have "\<not> ?P c" if "c \<in> set (drop n xs)" for c
  proof -
    from that obtain k where k: "k < length xs - n" "c = xs ! (n + k)"
      by (auto simp: in_set_conv_nth)
    then have "f (xs ! (n + k)) \<le> f (xs ! n)"
      using desc_nth_mono [OF srt, of n "n + k"] by simp
    with k show ?thesis by simp
  qed
  then have "filter ?P (drop n xs) = []"
    by (simp add: filter_empty_conv)
  moreover have "filter ?P xs = filter ?P (take n xs) @ filter ?P (drop n xs)"
    by (metis append_take_drop_id filter_append)
  ultimately have "filter ?P xs = filter ?P (take n xs)"
    by simp
  moreover have "length (filter ?P (take n xs)) \<le> length (take n xs)"
    by (rule length_filter_le)
  ultimately show ?thesis
    using n by simp
qed

lemma count_split:
  fixes f :: "'a \<Rightarrow> rat"
  shows "length (filter (\<lambda>c. v \<le> f c) xs)
         = length (filter (\<lambda>c. v < f c) xs) + length (filter (\<lambda>c. f c = v) xs)"
  by (induction xs) auto

lemma beat_or_tie_count:
  fixes f :: "'a \<Rightarrow> rat"
  assumes srt: "sorted (map (\<lambda>c. - f c) xs)" and n: "n < length xs"
  shows "n < length (filter (\<lambda>c. f (xs ! n) < f c) xs)
             + length (filter (\<lambda>c. f c = f (xs ! n)) xs)"
proof -
  let ?Q = "\<lambda>c. f (xs ! n) \<le> f c"
  have "?Q c" if "c \<in> set (take (Suc n) xs)" for c
  proof -
    from that obtain k where k: "k < Suc n" "c = xs ! k"
      using n by (auto simp: in_set_conv_nth)
    then show ?thesis
      using desc_nth_mono [OF srt, of k n] n by simp
  qed
  then have "filter ?Q (take (Suc n) xs) = take (Suc n) xs"
    by (simp add: filter_id_conv)
  moreover have "filter ?Q xs = filter ?Q (take (Suc n) xs) @ filter ?Q (drop (Suc n) xs)"
    by (metis append_take_drop_id filter_append)
  ultimately have "length (take (Suc n) xs) \<le> length (filter ?Q xs)"
    by simp
  then have "Suc n \<le> length (filter ?Q xs)"
    using n by simp
  then show ?thesis
    by (simp add: count_split)
qed

lemma beat_count_distinct:
  fixes f :: "'a \<Rightarrow> rat"
  assumes srt: "sorted (map (\<lambda>c. - f c) xs)" and n: "n < length xs"
    and dst: "distinct (map f xs)"
  shows "length (filter (\<lambda>c. f (xs ! n) < f c) xs) = n"
proof -
  let ?P = "\<lambda>c. f (xs ! n) < f c"
  have "?P c" if "c \<in> set (take n xs)" for c
  proof -
    from that obtain k where k: "k < n" "c = xs ! k"
      using n by (auto simp: in_set_conv_nth)
    have "f (xs ! n) \<le> f (xs ! k)"
      using desc_nth_mono [OF srt, of k n] k n by simp
    moreover have "map f xs ! k \<noteq> map f xs ! n"
      using nth_eq_iff_index_eq [OF dst, of k n] k n by simp
    ultimately show ?thesis
      using k n by simp
  qed
  then have "filter ?P (take n xs) = take n xs"
    by (simp add: filter_id_conv)
  moreover have "filter ?P xs = filter ?P (take n xs) @ filter ?P (drop n xs)"
    by (metis append_take_drop_id filter_append)
  ultimately have "n \<le> length (filter ?P xs)"
    using n by simp
  with beat_count_le [OF srt n] show ?thesis
    by simp
qed

lemma sortedPool_sorted:
  "sorted (map (\<lambda>c. - scoringFunc rt c) (sortedPool rt cands))"
  by (simp add: sortedPool_def)

lemma sortedPool_mset: "mset (sortedPool rt cands) = mset (roundPool rt cands)"
  by (simp add: sortedPool_def)

lemma sortedPool_set: "set (sortedPool rt cands) = set (roundPool rt cands)"
  by (simp add: sortedPool_def)

lemma sortedPool_length: "length (sortedPool rt cands) = length cands"
  by (simp add: sortedPool_def roundPool_length)

lemma calculateMiniRound_Inr:
  assumes "0 \<le> need" and "need < int (length cands)"
  shows "calculateMiniRound need cands rt =
           Inr (\<lparr>roundType = rt, candidates = sortedPool rt cands,
                 winners = filter (\<lambda>w. scoringFunc rt (sortedPool rt cands ! nat need)
                                         < scoringFunc rt w) (sortedPool rt cands),
                 tied = (if int (length (filter (\<lambda>w. scoringFunc rt (sortedPool rt cands ! nat need)
                                                        < scoringFunc rt w) (sortedPool rt cands)))
                            = need then []
                         else filter (\<lambda>w. scoringFunc rt w
                                           = scoringFunc rt (sortedPool rt cands ! nat need))
                                (sortedPool rt cands))\<rparr>,
                sortedPool rt cands)"
proof -
  have "\<not> (\<exists>c \<in> set (roundPool rt cands). isl (getMetric c rt))"
    using roundPool_metric [of _ rt cands] by auto
  then have "\<not> (\<exists>c \<in> set (if rt = RankedRobin then calculateRankedWins cands else cands).
                  isl (getMetric c rt))"
    by (simp add: roundPool_def)
  with assms show ?thesis
    unfolding calculateMiniRound_def sortedPool_def roundPool_def Let_def
    by simp
qed

lemma calculateMiniRound_InrD:
  assumes "calculateMiniRound need cands rt = Inr x"
  shows "0 \<le> need" and "need < int (length cands)"
  using assms by (auto simp: calculateMiniRound_def Let_def split: if_splits)

lemma calculateMiniRound_facts:
  assumes "0 \<le> need" and "need < int (length cands)"
  obtains r where "calculateMiniRound need cands rt = Inr (r, sortedPool rt cands)"
    and "MiniRoundResult.candidates r = sortedPool rt cands"
    and "MiniRoundResult.winners r
           = filter (\<lambda>w. scoringFunc rt (sortedPool rt cands ! nat need) < scoringFunc rt w)
               (sortedPool rt cands)"
    and "tied r = (if int (length (MiniRoundResult.winners r)) = need then []
                   else filter (\<lambda>w. scoringFunc rt w
                                     = scoringFunc rt (sortedPool rt cands ! nat need))
                          (sortedPool rt cands))"
    and "int (length (MiniRoundResult.winners r)) \<le> need"
    and "int (length (MiniRoundResult.winners r)) \<noteq> need \<Longrightarrow>
           need - int (length (MiniRoundResult.winners r)) < int (length (tied r))"
proof -
  let ?S = "sortedPool rt cands"
  let ?m = "scoringFunc rt"
  let ?ws = "filter (\<lambda>w. ?m (?S ! nat need) < ?m w) ?S"
  let ?td = "if int (length ?ws) = need then [] else filter (\<lambda>w. ?m w = ?m (?S ! nat need)) ?S"
  let ?r = "\<lparr>roundType = rt, candidates = ?S, winners = ?ws, tied = ?td\<rparr>"
  have n: "nat need < length ?S"
    using assms by (simp add: sortedPool_length)
  have le: "length ?ws \<le> nat need"
    by (rule beat_count_le [OF sortedPool_sorted n])
  have more: "nat need < length ?ws + length (filter (\<lambda>w. ?m w = ?m (?S ! nat need)) ?S)"
    by (rule beat_or_tie_count [OF sortedPool_sorted n])
  show thesis
  proof (rule that [of ?r])
    show "calculateMiniRound need cands rt = Inr (?r, ?S)"
      by (rule calculateMiniRound_Inr [OF assms])
    show "int (length (MiniRoundResult.winners ?r)) \<le> need"
      using le assms(1) by simp
    show "need - int (length (MiniRoundResult.winners ?r)) < int (length (tied ?r))"
      if "int (length (MiniRoundResult.winners ?r)) \<noteq> need"
      using that more assms(1) by simp
  qed simp_all
qed

lemma desc_map_rev_sort:
  fixes f :: "'a \<Rightarrow> rat"
  shows "map f (sort_key (\<lambda>c. - f c) xs) = rev (sort (map f xs))"
proof -
  let ?ys = "sort_key (\<lambda>c. - f c) xs"
  have "sorted (rev (map f ?ys)) = sorted (map (\<lambda>c. - f c) ?ys)"
    by (simp add: sorted_wrt_rev sorted_wrt_map)
  then have "sorted (rev (map f ?ys))"
    by simp
  moreover have "mset (rev (map f ?ys)) = mset (map f xs)"
    by simp
  ultimately have "sort (map f xs) = rev (map f ?ys)"
    by (metis properties_for_sort)
  then show ?thesis
    by simp
qed

text \<open>
  Claim C1: a mini round that is asked for \<open>need\<close> winners, \<open>0 < need < |C|\<close>, returns;
  its candidates are the pool sorted descending by the metric of the round;
  \<open>scoreToBeat\<close> is the metric of the candidate at the sorted index \<open>need\<close>; the
  winners are exactly the candidates whose metric exceeds \<open>scoreToBeat\<close>; the tied set
  is empty when there are \<open>need\<close> winners and is otherwise exactly the candidates whose
  metric equals \<open>scoreToBeat\<close>.
\<close>

theorem C1_mini_round:
  assumes "0 < need" and "need < int (length cands)"
  shows "\<exists>r scoreToBeat.
           calculateMiniRound need cands rt = Inr (r, MiniRoundResult.candidates r)
           \<and> mset (MiniRoundResult.candidates r) = mset (roundPool rt cands)
           \<and> (\<forall>c \<in> set (roundPool rt cands). getMetric c rt = Inr (scoringFunc rt c))
           \<and> map (scoringFunc rt) (MiniRoundResult.candidates r)
               = rev (sort (map (scoringFunc rt) (roundPool rt cands)))
           \<and> scoreToBeat = scoringFunc rt (MiniRoundResult.candidates r ! nat need)
           \<and> MiniRoundResult.winners r
               = filter (\<lambda>c. scoreToBeat < scoringFunc rt c) (MiniRoundResult.candidates r)
           \<and> mset (MiniRoundResult.winners r)
               = filter_mset (\<lambda>c. scoreToBeat < scoringFunc rt c) (mset (roundPool rt cands))
           \<and> (int (length (MiniRoundResult.winners r)) = need \<longrightarrow> tied r = [])
           \<and> (int (length (MiniRoundResult.winners r)) \<noteq> need \<longrightarrow>
                tied r = filter (\<lambda>c. scoringFunc rt c = scoreToBeat) (MiniRoundResult.candidates r)
                \<and> mset (tied r)
                    = filter_mset (\<lambda>c. scoringFunc rt c = scoreToBeat) (mset (roundPool rt cands)))"
proof -
  have need: "0 \<le> need"
    using assms(1) by simp
  from calculateMiniRound_facts [OF need assms(2), of rt]
  obtain r where r: "calculateMiniRound need cands rt = Inr (r, sortedPool rt cands)"
    and rc: "MiniRoundResult.candidates r = sortedPool rt cands"
    and rw: "MiniRoundResult.winners r
               = filter (\<lambda>w. scoringFunc rt (sortedPool rt cands ! nat need) < scoringFunc rt w)
                   (sortedPool rt cands)"
    and rt: "tied r = (if int (length (MiniRoundResult.winners r)) = need then []
                       else filter (\<lambda>w. scoringFunc rt w
                                         = scoringFunc rt (sortedPool rt cands ! nat need))
                              (sortedPool rt cands))"
    by blast
  have ms: "mset (sortedPool rt cands) = mset (roundPool rt cands)"
    by (rule sortedPool_mset)
  have srt: "map (scoringFunc rt) (sortedPool rt cands)
               = rev (sort (map (scoringFunc rt) (roundPool rt cands)))"
    unfolding sortedPool_def by (rule desc_map_rev_sort)
  have mw: "mset (filter P (sortedPool rt cands)) = filter_mset P (mset (roundPool rt cands))" for P
    using ms by (metis mset_filter)
  show ?thesis
    using r rc rw rt ms srt mw roundPool_metric [of _ rt cands]
    by (intro exI [of _ r] exI [of _ "scoringFunc rt (sortedPool rt cands ! nat need)"]) simp
qed

theorem C1_mini_round_witness:
  "(0::int) < 1 \<and> 1 < int (length exampleCandidates)
   \<and> (\<exists>r. calculateMiniRound 1 exampleCandidates Score = Inr (r, MiniRoundResult.candidates r)
          \<and> mset (MiniRoundResult.candidates r) = mset (roundPool Score exampleCandidates)
          \<and> MiniRoundResult.winners r
              = filter (\<lambda>c. scoringFunc Score (MiniRoundResult.candidates r ! nat 1)
                                < scoringFunc Score c) (MiniRoundResult.candidates r))
   \<and> calculateMiniRound 1 exampleCandidates Score
       = Inr (\<lparr>roundType = Score, candidates = exampleCandidates, winners = [],
                tied = take 2 exampleCandidates\<rparr>, exampleCandidates)"
proof -
  have h: "(0::int) < 1" "1 < int (length exampleCandidates)"
    by (simp_all add: exampleCandidates_def)
  have v: "calculateMiniRound 1 exampleCandidates Score
             = Inr (\<lparr>roundType = Score, candidates = exampleCandidates, winners = [],
                      tied = take 2 exampleCandidates\<rparr>, exampleCandidates)"
    by code_simp
  from C1_mini_round [OF h, of Score] h v show ?thesis
    by auto
qed

subsection \<open>Full rounds\<close>

lemma fullRoundLoop_safe:
  assumes "int (length ws) < N" and "N - int (length ws) < int (length cands)"
  shows "\<exists>new ws' ca'. fullRoundLoop N rs ws cands al ca ms = Inr (rs @ new, ws', ca')
           \<and> int (length ws') \<le> N \<and> preconditionsHold (N - int (length ws)) new"
  using assms
proof (induction ms arbitrary: rs ws cands al ca)
  case Nil
  then show ?case by simp
next
  case (Cons m ms)
  let ?need = "N - int (length ws)"
  have need: "0 \<le> ?need" "?need < int (length cands)"
    using Cons.prems by simp_all
  from calculateMiniRound_facts [OF need, of m]
  obtain r where r: "calculateMiniRound ?need cands m = Inr (r, sortedPool m cands)"
    and rc: "MiniRoundResult.candidates r = sortedPool m cands"
    and le: "int (length (MiniRoundResult.winners r)) \<le> ?need"
    and td: "int (length (MiniRoundResult.winners r)) \<noteq> ?need \<Longrightarrow>
               ?need - int (length (MiniRoundResult.winners r)) < int (length (tied r))"
    by blast
  let ?ws = "ws @ MiniRoundResult.winners r"
  let ?ca = "if al then sortedPool m cands else ca"
  have pre: "0 < ?need" "?need < int (length (MiniRoundResult.candidates r))"
    using Cons.prems rc by (simp_all add: sortedPool_length)
  show ?case
  proof (cases "int (length ?ws) = N")
    case True
    then have "fullRoundLoop N rs ws cands al ca (m # ms) = Inr (rs @ [r], ?ws, ?ca)"
      using r by (simp add: Let_def)
    moreover have "preconditionsHold ?need [r]"
      using pre by simp
    ultimately show ?thesis
      using True by auto
  next
    case False
    then have step: "fullRoundLoop N rs ws cands al ca (m # ms)
                       = fullRoundLoop N (rs @ [r]) ?ws (tied r) False ?ca ms"
      using r by (simp add: Let_def)
    from False le have lt: "int (length ?ws) < N"
      by simp
    from False td have tl: "N - int (length ?ws) < int (length (tied r))"
      by simp
    from Cons.IH [OF lt tl, of "rs @ [r]" False ?ca]
    obtain new ws' ca' where
      res: "fullRoundLoop N (rs @ [r]) ?ws (tied r) False ?ca ms = Inr ((rs @ [r]) @ new, ws', ca')"
      and len: "int (length ws') \<le> N"
      and ph: "preconditionsHold (N - int (length ?ws)) new"
      by blast
    have "preconditionsHold ?need (r # new)"
      using pre ph by (simp add: algebra_simps)
    with step res len show ?thesis
      by auto
  qed
qed

lemma calculateFullRound_safe:
  assumes "0 < N" and "N < int (length cands)"
  shows "\<exists>r cands'. calculateFullRound N cands ms = Inr (r, cands')
           \<and> int (length (FullRoundResult.winners r)) \<le> N
           \<and> preconditionsHold N (rounds r)"
proof -
  from fullRoundLoop_safe [of "[]" N cands "[]" True cands ms] assms
  obtain new ws' ca' where "fullRoundLoop N [] [] cands True cands ms = Inr (new, ws', ca')"
    and "int (length ws') \<le> N" and "preconditionsHold N new"
    by auto
  then show ?thesis
    by (simp add: calculateFullRound_def)
qed

text \<open>
  Claim C2: a full round that is asked for \<open>N\<close> winners among more than \<open>N\<close> candidates,
  \<open>0 < N\<close>, returns without an error whatever its sequence of metrics is; every mini
  round it ran was asked for fewer winners than it had candidates; and it returns at most
  \<open>N\<close> winners.
\<close>

theorem C2_full_round:
  assumes "0 < N" and "N < int (length cands)"
  shows "\<exists>r cands'. calculateFullRound N cands ms = Inr (r, cands')
           \<and> int (length (FullRoundResult.winners r)) \<le> N
           \<and> preconditionsHold N (rounds r)"
  using assms by (rule calculateFullRound_safe)

theorem C2_full_round_witness:
  "(0::int) < 1 \<and> 1 < int (length exampleCandidates)
   \<and> (\<exists>r cands'. calculateFullRound 1 exampleCandidates [Score, RankedRobin, FiveStars, Random]
                      = Inr (r, cands')
          \<and> int (length (FullRoundResult.winners r)) \<le> 1
          \<and> preconditionsHold 1 (rounds r))
   \<and> map_sum id (\<lambda>x. map Candidate.date (FullRoundResult.winners (fst x)))
         (calculateFullRound 1 exampleCandidates [Score, RankedRobin, FiveStars, Random])
       = Inr [''1300'']"
proof -
  have h: "(0::int) < 1" "1 < int (length exampleCandidates)"
    by (simp_all add: exampleCandidates_def)
  have v: "map_sum id (\<lambda>x. map Candidate.date (FullRoundResult.winners (fst x)))
             (calculateFullRound 1 exampleCandidates [Score, RankedRobin, FiveStars, Random])
           = Inr [''1300'']"
    by code_simp
  from C2_full_round [OF h, of "[Score, RankedRobin, FiveStars, Random]"] h v show ?thesis
    by simp
qed

lemma calculateMiniRound_result:
  assumes "calculateMiniRound need cands rt = Inr (r, cands')"
  shows "cands' = sortedPool rt cands"
    and "MiniRoundResult.candidates r = sortedPool rt cands"
    and "set (MiniRoundResult.winners r) \<subseteq> set (roundPool rt cands)"
    and "set (tied r) \<subseteq> set (roundPool rt cands)"
    and "tied r = [] \<or> (\<exists>P. tied r = filter P (sortedPool rt cands))"
proof -
  from calculateMiniRound_InrD [OF assms] have need: "0 \<le> need" "need < int (length cands)" .
  from calculateMiniRound_facts [OF need, of rt]
  obtain r0 where r0: "calculateMiniRound need cands rt = Inr (r0, sortedPool rt cands)"
    and c0: "MiniRoundResult.candidates r0 = sortedPool rt cands"
    and w0: "MiniRoundResult.winners r0
               = filter (\<lambda>w. scoringFunc rt (sortedPool rt cands ! nat need) < scoringFunc rt w)
                   (sortedPool rt cands)"
    and t0: "tied r0 = (if int (length (MiniRoundResult.winners r0)) = need then []
                        else filter (\<lambda>w. scoringFunc rt w
                                          = scoringFunc rt (sortedPool rt cands ! nat need))
                               (sortedPool rt cands))"
    by blast
  from r0 assms have eq: "r = r0" "cands' = sortedPool rt cands"
    by simp_all
  show "cands' = sortedPool rt cands"
    by (rule eq(2))
  show "MiniRoundResult.candidates r = sortedPool rt cands"
    using eq c0 by simp
  show "set (MiniRoundResult.winners r) \<subseteq> set (roundPool rt cands)"
    using eq w0 sortedPool_set [of rt cands] by auto
  show "set (tied r) \<subseteq> set (roundPool rt cands)"
    using eq t0 sortedPool_set [of rt cands] by (auto split: if_splits)
  show "tied r = [] \<or> (\<exists>P. tied r = filter P (sortedPool rt cands))"
    using eq t0 by (auto split: if_splits)
qed

lemma fullRoundLoop_Cons_cases:
  assumes "fullRoundLoop N rs ws cands al ca (m # ms) = Inr (rs', ws', ca')"
  obtains r where "calculateMiniRound (N - int (length ws)) cands m = Inr (r, sortedPool m cands)"
    and "int (length (ws @ MiniRoundResult.winners r)) = N"
    and "rs' = rs @ [r]" and "ws' = ws @ MiniRoundResult.winners r"
    and "ca' = (if al then sortedPool m cands else ca)"
  | r where "calculateMiniRound (N - int (length ws)) cands m = Inr (r, sortedPool m cands)"
    and "int (length (ws @ MiniRoundResult.winners r)) \<noteq> N"
    and "fullRoundLoop N (rs @ [r]) (ws @ MiniRoundResult.winners r) (tied r) False
           (if al then sortedPool m cands else ca) ms = Inr (rs', ws', ca')"
proof (cases "calculateMiniRound (N - int (length ws)) cands m")
  case (Inl e)
  with assms show ?thesis by simp
next
  case (Inr x)
  obtain r c where x: "x = (r, c)"
    by (cases x)
  with Inr have mr: "calculateMiniRound (N - int (length ws)) cands m = Inr (r, c)"
    by simp
  from calculateMiniRound_result(1) [OF mr] have c: "c = sortedPool m cands" .
  with mr have mr': "calculateMiniRound (N - int (length ws)) cands m = Inr (r, sortedPool m cands)"
    by simp
  show ?thesis
  proof (cases "int (length (ws @ MiniRoundResult.winners r)) = N")
    case True
    with assms mr' have "rs' = rs @ [r]" "ws' = ws @ MiniRoundResult.winners r"
      "ca' = (if al then sortedPool m cands else ca)"
      by (auto simp: Let_def)
    with mr' True show ?thesis
      by (intro that(1) [of r]) simp_all
  next
    case False
    with assms mr' have "fullRoundLoop N (rs @ [r]) (ws @ MiniRoundResult.winners r) (tied r) False
           (if al then sortedPool m cands else ca) ms = Inr (rs', ws', ca')"
      by (simp add: Let_def)
    with mr' False show ?thesis
      by (intro that(2) [of r])
  qed
qed

lemma fullRoundLoop_members:
  assumes "fullRoundLoop N rs ws cands al ca ms = Inr (rs', ws', ca')"
  shows "\<forall>w \<in> set ws'. w \<in> set ws \<or> (\<exists>c \<in> set cands. sameCandidate c w)"
  using assms
proof (induction ms arbitrary: rs ws cands al ca)
  case Nil
  then show ?case by simp
next
  case (Cons m ms)
  from Cons.prems show ?case
  proof (cases rule: fullRoundLoop_Cons_cases)
    case (1 r)
    from calculateMiniRound_result(3) [OF 1(1)] roundPool_member [of _ m cands] 1(4)
    show ?thesis by auto
  next
    case (2 r)
    note win = calculateMiniRound_result(3) [OF 2(1)]
    note tie = calculateMiniRound_result(4) [OF 2(1)]
    from Cons.IH [OF 2(3)]
    have ih: "\<forall>w \<in> set ws'. w \<in> set (ws @ MiniRoundResult.winners r)
                \<or> (\<exists>c \<in> set (tied r). sameCandidate c w)" .
    show ?thesis
    proof
      fix w assume "w \<in> set ws'"
      with ih consider "w \<in> set ws" | "w \<in> set (MiniRoundResult.winners r)"
        | c where "c \<in> set (tied r)" "sameCandidate c w"
        by auto
      then show "w \<in> set ws \<or> (\<exists>c \<in> set cands. sameCandidate c w)"
      proof cases
        case 1
        then show ?thesis by simp
      next
        case 2
        with win roundPool_member [of w m cands] show ?thesis by auto
      next
        case 3
        with tie roundPool_member [of c m cands] obtain c0
          where "c0 \<in> set cands" "sameCandidate c0 c" by auto
        with 3(2) sameCandidate_trans show ?thesis by blast
      qed
    qed
  qed
qed

lemma roundPool_other: "rt \<noteq> RankedRobin \<Longrightarrow> roundPool rt cands = cands"
  by (simp add: roundPool_def)

lemma fullRoundLoop_members_exact:
  assumes "fullRoundLoop N rs ws cands al ca ms = Inr (rs', ws', ca')"
    and "RankedRobin \<notin> set ms"
  shows "set ws' \<subseteq> set ws \<union> set cands"
  using assms
proof (induction ms arbitrary: rs ws cands al ca)
  case Nil
  then show ?case by simp
next
  case (Cons m ms)
  from Cons.prems(2) have m: "m \<noteq> RankedRobin" and ms: "RankedRobin \<notin> set ms"
    by auto
  from Cons.prems(1) show ?case
  proof (cases rule: fullRoundLoop_Cons_cases)
    case (1 r)
    from calculateMiniRound_result(3) [OF 1(1)] roundPool_other [OF m, of cands] 1(4)
    show ?thesis by auto
  next
    case (2 r)
    from calculateMiniRound_result(3,4) [OF 2(1)] roundPool_other [OF m, of cands]
    have "set (MiniRoundResult.winners r) \<subseteq> set cands" "set (tied r) \<subseteq> set cands"
      by simp_all
    with Cons.IH [OF 2(3) ms] show ?thesis by auto
  qed
qed

lemma fullRoundLoop_callerArray:
  assumes "fullRoundLoop N rs ws cands al ca ms = Inr (rs', ws', ca')"
  shows "ca' = (if al \<and> ms \<noteq> [] then sortedPool (hd ms) cands else ca)"
  using assms
proof (induction ms arbitrary: rs ws cands al ca)
  case Nil
  then show ?case by simp
next
  case (Cons m ms)
  from Cons.prems show ?case
  proof (cases rule: fullRoundLoop_Cons_cases)
    case (1 r)
    then show ?thesis by simp
  next
    case (2 r)
    from Cons.IH [OF 2(3)] show ?thesis by simp
  qed
qed

lemma distinct_map_sort_key:
  "distinct (map f (sort_key g xs)) = distinct (map f xs)"
proof -
  have "mset (map f (sort_key g xs)) = mset (map f xs)"
    by simp
  then show ?thesis
    by (rule mset_eq_imp_distinct_iff)
qed

lemma sortedPool_random:
  "distinct (map randomTieValue (sortedPool rt cands)) = distinct (map randomTieValue cands)"
  by (simp add: sortedPool_def distinct_map_sort_key roundPool_random)

lemma fullRoundLoop_complete:
  assumes "int (length ws) < N" and "N - int (length ws) < int (length cands)"
    and "ms \<noteq> []" and "last ms = Random" and "distinct (map randomTieValue cands)"
  shows "\<exists>rs' ws' ca'. fullRoundLoop N rs ws cands al ca ms = Inr (rs', ws', ca')
           \<and> int (length ws') = N"
  using assms
proof (induction ms arbitrary: rs ws cands al ca)
  case Nil
  then show ?case by simp
next
  case (Cons m ms)
  let ?need = "N - int (length ws)"
  have need: "0 \<le> ?need" "?need < int (length cands)"
    using Cons.prems by simp_all
  from calculateMiniRound_facts [OF need, of m]
  obtain r where r: "calculateMiniRound ?need cands m = Inr (r, sortedPool m cands)"
    and rw: "MiniRoundResult.winners r
               = filter (\<lambda>w. scoringFunc m (sortedPool m cands ! nat ?need) < scoringFunc m w)
                   (sortedPool m cands)"
    and le: "int (length (MiniRoundResult.winners r)) \<le> ?need"
    and td: "int (length (MiniRoundResult.winners r)) \<noteq> ?need \<Longrightarrow>
               ?need - int (length (MiniRoundResult.winners r)) < int (length (tied r))"
    by blast
  let ?ws = "ws @ MiniRoundResult.winners r"
  let ?ca = "if al then sortedPool m cands else ca"
  show ?case
  proof (cases "int (length ?ws) = N")
    case True
    then have "fullRoundLoop N rs ws cands al ca (m # ms) = Inr (rs @ [r], ?ws, ?ca)"
      using r by (simp add: Let_def)
    with True show ?thesis by auto
  next
    case False
    then have step: "fullRoundLoop N rs ws cands al ca (m # ms)
                       = fullRoundLoop N (rs @ [r]) ?ws (tied r) False ?ca ms"
      using r by (simp add: Let_def)
    have ms: "ms \<noteq> []"
    proof
      assume "ms = []"
      with Cons.prems(4) have m: "m = Random" by simp
      have sf: "scoringFunc Random = randomTieValue"
        by (rule ext) (simp add: scoringFunc_def getMetric_def)
      have n: "nat ?need < length (sortedPool m cands)"
        using need by (simp add: sortedPool_length)
      have "distinct (map (scoringFunc m) (sortedPool m cands))"
        using Cons.prems(5) m sf by (simp add: sortedPool_random)
      from beat_count_distinct [OF sortedPool_sorted n this] rw
      have "length (MiniRoundResult.winners r) = nat ?need"
        by simp
      with need False show False by simp
    qed
    from False le have lt: "int (length ?ws) < N"
      by simp
    from False td have tl: "N - int (length ?ws) < int (length (tied r))"
      by simp
    from Cons.prems(4) ms have last: "last ms = Random"
      by simp
    from calculateMiniRound_result(5) [OF r] have dt: "distinct (map randomTieValue (tied r))"
    proof
      assume "tied r = []"
      then show ?thesis by simp
    next
      assume "\<exists>P. tied r = filter P (sortedPool m cands)"
      then obtain P where "tied r = filter P (sortedPool m cands)" ..
      with Cons.prems(5) show ?thesis
        by (simp add: distinct_map_filter sortedPool_random)
    qed
    from Cons.IH [OF lt tl ms last dt, of "rs @ [r]" False ?ca] step show ?thesis
      by simp
  qed
qed

lemma calculateFullRound_complete:
  assumes "0 < N" and "N < int (length cands)"
    and "ms \<noteq> []" and "last ms = Random" and "distinct (map randomTieValue cands)"
  shows "\<exists>r. calculateFullRound N cands ms = Inr (r, sortedPool (hd ms) cands)
           \<and> int (length (FullRoundResult.winners r)) = N
           \<and> (\<forall>w \<in> set (FullRoundResult.winners r). \<exists>c \<in> set cands. sameCandidate c w)"
proof -
  from fullRoundLoop_complete [of "[]" N cands ms "[]" True cands] assms
  obtain rs' ws' ca' where res: "fullRoundLoop N [] [] cands True cands ms = Inr (rs', ws', ca')"
    and len: "int (length ws') = N"
    by auto
  from fullRoundLoop_callerArray [OF res] assms(3) have ca: "ca' = sortedPool (hd ms) cands"
    by simp
  from fullRoundLoop_members [OF res]
  have mem: "\<forall>w \<in> set ws'. \<exists>c \<in> set cands. sameCandidate c w"
    by simp
  from res len ca mem show ?thesis
    by (simp add: calculateFullRound_def)
qed

lemma calculateFullRound_first:
  assumes "calculateFullRound N cands (m # ms) = Inr (r, cands')"
  shows "0 \<le> N" and "N < int (length cands)" and "cands' = sortedPool m cands"
proof -
  from assms obtain rs ws ca where
    loop: "fullRoundLoop N [] [] cands True cands (m # ms) = Inr (rs, ws, ca)"
    and ca: "cands' = ca"
    by (auto simp: calculateFullRound_def split: sum.splits)
  from loop obtain r1 where "calculateMiniRound (N - int (length ([] :: Candidate list))) cands m
                               = Inr (r1, sortedPool m cands)"
    by (cases rule: fullRoundLoop_Cons_cases) blast+
  then have mr: "calculateMiniRound N cands m = Inr (r1, sortedPool m cands)"
    by simp
  from calculateMiniRound_InrD [OF mr] show "0 \<le> N" and "N < int (length cands)" .
  from fullRoundLoop_callerArray [OF loop] ca show "cands' = sortedPool m cands"
    by simp
qed

lemma calculateFullRound_members:
  assumes "calculateFullRound N cands ms = Inr (r, cands')"
  shows "\<forall>w \<in> set (FullRoundResult.winners r). \<exists>c \<in> set cands. sameCandidate c w"
proof -
  from assms obtain rs ws ca where
    loop: "fullRoundLoop N [] [] cands True cands ms = Inr (rs, ws, ca)"
    and ws: "FullRoundResult.winners r = ws"
    by (auto simp: calculateFullRound_def split: sum.splits)
  from fullRoundLoop_members [OF loop] ws show ?thesis
    by simp
qed

subsection \<open>Overlap filter\<close>

lemma calculateFullRound_top:
  assumes "2 < length cands" and "distinct (map randomTieValue cands)"
  obtains r top c where
    "calculateFullRound 1 cands [Score, RankedRobin, FiveStars, Random]
       = Inr (r, sortedPool Score cands)"
    and "FullRoundResult.winners r = [top]"
    and "c \<in> set cands" and "sameCandidate c top"
proof -
  have "0 < (1::int)" "1 < int (length cands)"
    using assms(1) by simp_all
  from calculateFullRound_complete [OF this _ _ assms(2), of "[Score, RankedRobin, FiveStars, Random]"]
  obtain r where r: "calculateFullRound 1 cands [Score, RankedRobin, FiveStars, Random]
                       = Inr (r, sortedPool Score cands)"
    and len: "length (FullRoundResult.winners r) = 1"
    and mem: "\<forall>w \<in> set (FullRoundResult.winners r). \<exists>c \<in> set cands. sameCandidate c w"
    by auto
  from len obtain top where top: "FullRoundResult.winners r = [top]"
    by (cases "FullRoundResult.winners r") auto
  with mem obtain c where "c \<in> set cands" "sameCandidate c top"
    by auto
  with r top show thesis
    by (rule that)
qed

lemma removeOverlaps_kept:
  assumes "removeOverlapsWithTopScorer cands0 d tm = Inr cands" and "2 < length cands0"
  obtains r top rest where
    "calculateFullRound 1 cands0 [Score, RankedRobin, FiveStars, Random]
       = Inr (r, sortedPool Score cands0)"
    and "FullRoundResult.winners r = top # rest"
    and "cands = filter (\<lambda>other.
                   \<not> (timeInsideRange (tm (Candidate.date other))
                         (tm (Candidate.date top), tm (Candidate.date top) + int d)
                      \<or> timeInsideRange (tm (Candidate.date other) + int d)
                         (tm (Candidate.date top), tm (Candidate.date top) + int d)))
                 (sortedPool Score cands0)"
proof -
  from assms obtain r c' where fr: "calculateFullRound 1 cands0 [Score, RankedRobin, FiveStars, Random]
                                      = Inr (r, c')"
    by (auto simp: removeOverlapsWithTopScorer_def split: sum.splits)
  from calculateFullRound_first(3) [OF fr] have c': "c' = sortedPool Score cands0" .
  from assms fr obtain top rest where top: "FullRoundResult.winners r = top # rest"
    by (auto simp: removeOverlapsWithTopScorer_def split: list.splits)
  from assms fr c' top show thesis
    by (intro that [of r top rest]) (simp_all add: removeOverlapsWithTopScorer_def Let_def)
qed

text \<open>
  Claim C5: the Overlap Filter leaves two or fewer candidates alone. For more than two
  candidates, whenever it returns, its full round for one winner has found a winner
  \<open>top\<close>, and it has removed exactly the candidates whose start or end lies strictly inside
  the window of \<open>top\<close>: a candidate whose window only touches that window stays, and
  the candidate that \<open>top\<close> stands for stays. It returns whenever the random tie values
  of the candidates differ from each other.
\<close>

theorem C5_overlap_filter:
  "(length cands \<le> 2 \<longrightarrow> removeOverlapsWithTopScorer cands d tm = Inr cands)
   \<and> (2 < length cands \<and> removeOverlapsWithTopScorer cands d tm = Inr out \<longrightarrow>
        (\<exists>r top rest.
           calculateFullRound 1 cands [Score, RankedRobin, FiveStars, Random]
             = Inr (r, sortedPool Score cands)
           \<and> FullRoundResult.winners r = top # rest
           \<and> mset out
               = filter_mset
                   (\<lambda>other.
                      \<not> (timeInsideRange (tm (Candidate.date other))
                            (tm (Candidate.date top), tm (Candidate.date top) + int d)
                         \<or> timeInsideRange (tm (Candidate.date other) + int d)
                            (tm (Candidate.date top), tm (Candidate.date top) + int d)))
                   (mset cands)
           \<and> (\<forall>other \<in> set cands.
                 tm (Candidate.date other) = tm (Candidate.date top) + int d
                 \<or> tm (Candidate.date other) + int d = tm (Candidate.date top)
                 \<longrightarrow> other \<in> set out)
           \<and> (\<exists>c \<in> set cands. sameCandidate c top \<and> c \<in> set out)))
   \<and> (2 < length cands \<and> distinct (map randomTieValue cands) \<longrightarrow>
        (\<exists>kept. removeOverlapsWithTopScorer cands d tm = Inr kept))"
proof (intro conjI impI)
  assume "length cands \<le> 2"
  then show "removeOverlapsWithTopScorer cands d tm = Inr cands"
    by (simp add: removeOverlapsWithTopScorer_def)
next
  assume "2 < length cands \<and> removeOverlapsWithTopScorer cands d tm = Inr out"
  then have big: "2 < length cands" and ret: "removeOverlapsWithTopScorer cands d tm = Inr out"
    by simp_all
  from removeOverlaps_kept [OF ret big]
  obtain r top rest where r: "calculateFullRound 1 cands [Score, RankedRobin, FiveStars, Random]
                                = Inr (r, sortedPool Score cands)"
    and top: "FullRoundResult.winners r = top # rest"
    and out: "out = filter (\<lambda>other.
                   \<not> (timeInsideRange (tm (Candidate.date other))
                         (tm (Candidate.date top), tm (Candidate.date top) + int d)
                      \<or> timeInsideRange (tm (Candidate.date other) + int d)
                         (tm (Candidate.date top), tm (Candidate.date top) + int d)))
                 (sortedPool Score cands)"
    by blast
  from calculateFullRound_members [OF r] top obtain c where c: "c \<in> set cands" "sameCandidate c top"
    by auto
  let ?s = "tm (Candidate.date top)"
  let ?keep = "\<lambda>other.
                 \<not> (timeInsideRange (tm (Candidate.date other)) (?s, ?s + int d)
                    \<or> timeInsideRange (tm (Candidate.date other) + int d) (?s, ?s + int d))"
  have ms: "mset (sortedPool Score cands) = mset cands"
    by (simp add: sortedPool_mset roundPool_def)
  then have st: "set (sortedPool Score cands) = set cands"
    by (rule mset_eq_setD)
  have m: "mset out = filter_mset ?keep (mset cands)"
    unfolding out using ms by (metis mset_filter)
  have touch: "\<forall>other \<in> set cands.
                 tm (Candidate.date other) = ?s + int d \<or> tm (Candidate.date other) + int d = ?s
                 \<longrightarrow> other \<in> set out"
  proof (intro ballI impI)
    fix other assume o: "other \<in> set cands"
      and t: "tm (Candidate.date other) = ?s + int d \<or> tm (Candidate.date other) + int d = ?s"
    from t have "?keep other"
      by (auto simp: timeInsideRange_def)
    with o st show "other \<in> set out"
      unfolding out by simp
  qed
  have "Candidate.date c = Candidate.date top"
    using sameCandidate_fields(1) [OF c(2)] by simp
  then have "?keep c"
    by (simp add: timeInsideRange_def)
  with c st have kept: "\<exists>c \<in> set cands. sameCandidate c top \<and> c \<in> set out"
    unfolding out by auto
  from r top m touch kept
  show "\<exists>r top rest.
           calculateFullRound 1 cands [Score, RankedRobin, FiveStars, Random]
             = Inr (r, sortedPool Score cands)
           \<and> FullRoundResult.winners r = top # rest
           \<and> mset out
               = filter_mset
                   (\<lambda>other.
                      \<not> (timeInsideRange (tm (Candidate.date other))
                            (tm (Candidate.date top), tm (Candidate.date top) + int d)
                         \<or> timeInsideRange (tm (Candidate.date other) + int d)
                            (tm (Candidate.date top), tm (Candidate.date top) + int d)))
                   (mset cands)
           \<and> (\<forall>other \<in> set cands.
                 tm (Candidate.date other) = tm (Candidate.date top) + int d
                 \<or> tm (Candidate.date other) + int d = tm (Candidate.date top)
                 \<longrightarrow> other \<in> set out)
           \<and> (\<exists>c \<in> set cands. sameCandidate c top \<and> c \<in> set out)"
    by blast
next
  assume "2 < length cands \<and> distinct (map randomTieValue cands)"
  then have big: "2 < length cands" and dst: "distinct (map randomTieValue cands)"
    by simp_all
  from calculateFullRound_top [OF big dst]
  obtain r top c where r: "calculateFullRound 1 cands [Score, RankedRobin, FiveStars, Random]
                             = Inr (r, sortedPool Score cands)"
    and top: "FullRoundResult.winners r = [top]"
    by blast
  then show "\<exists>kept. removeOverlapsWithTopScorer cands d tm = Inr kept"
    using big by (simp add: removeOverlapsWithTopScorer_def Let_def)
qed

theorem C5_overlap_filter_witness:
  "2 < length exampleCandidates \<and> distinct (map randomTieValue exampleCandidates)
   \<and> removeOverlapsWithTopScorer exampleCandidates 30 exampleTimeMap
       = Inr [exampleCandidates ! 0, exampleCandidates ! 2, exampleCandidates ! 3]
   \<and> (\<exists>r top rest.
         calculateFullRound 1 exampleCandidates [Score, RankedRobin, FiveStars, Random]
           = Inr (r, sortedPool Score exampleCandidates)
         \<and> FullRoundResult.winners r = top # rest
         \<and> (\<exists>c \<in> set exampleCandidates. sameCandidate c top
               \<and> c \<in> set [exampleCandidates ! 0, exampleCandidates ! 2, exampleCandidates ! 3]))
   \<and> (\<exists>kept. removeOverlapsWithTopScorer exampleCandidates 30 exampleTimeMap = Inr kept)
   \<and> removeOverlapsWithTopScorer (take 2 exampleCandidates) 30 exampleTimeMap
       = Inr (take 2 exampleCandidates)"
proof -
  let ?out = "[exampleCandidates ! 0, exampleCandidates ! 2, exampleCandidates ! 3]"
  have h: "2 < length exampleCandidates" "distinct (map randomTieValue exampleCandidates)"
    by (simp_all add: exampleCandidates_def)
  have l: "length (take 2 exampleCandidates) \<le> 2"
    by simp
  have v: "removeOverlapsWithTopScorer exampleCandidates 30 exampleTimeMap = Inr ?out"
    by code_simp
  from C5_overlap_filter [of exampleCandidates 30 exampleTimeMap ?out] h(1) v
  have a: "\<exists>r top rest.
         calculateFullRound 1 exampleCandidates [Score, RankedRobin, FiveStars, Random]
           = Inr (r, sortedPool Score exampleCandidates)
         \<and> FullRoundResult.winners r = top # rest
         \<and> (\<exists>c \<in> set exampleCandidates. sameCandidate c top \<and> c \<in> set ?out)"
    by blast
  from C5_overlap_filter [of exampleCandidates 30 exampleTimeMap ?out] h
  have b: "\<exists>kept. removeOverlapsWithTopScorer exampleCandidates 30 exampleTimeMap = Inr kept"
    by blast
  from C5_overlap_filter [of "take 2 exampleCandidates" 30 exampleTimeMap ?out] l
  have c: "removeOverlapsWithTopScorer (take 2 exampleCandidates) 30 exampleTimeMap
             = Inr (take 2 exampleCandidates)"
    by blast
  from h v a b c show ?thesis
    by (intro conjI)
qed

subsection \<open>Preferred fraction\<close>

lemma calculateStarBest_two:
  assumes "calculateStarBest cands d = Inr res" and "nextBest res = Some nb"
  obtains scoreRound cands' runoffRound scoreWinners winner rest second w s where
    "calculateFullRound 2 cands [Score, RankedRobin, FiveStars, Random] = Inr (scoreRound, cands')"
    and "calculateFullRound 1 (FullRoundResult.winners scoreRound)
           [RankedRobin, Score, FiveStars, Random] = Inr (runoffRound, scoreWinners)"
    and "FullRoundResult.winners runoffRound = winner # rest"
    and "find (\<lambda>w. Candidate.date w \<noteq> Candidate.date winner) scoreWinners = Some second"
    and "getMetric winner RankedRobin = Inr w"
    and "getMetric second RankedRobin = Inr s"
    and "res = \<lparr>bestTime =
                  Some \<lparr>ResultTimeScore.time = Candidate.date winner,
                        score = js_div (Candidate.score winner) (numTimeslots d)\<rparr>,
                nextBest =
                  Some \<lparr>ResultTimeScore.time = Candidate.date second,
                        score = js_div (Candidate.score second) (numTimeslots d)\<rparr>,
                preferredFraction = Some (if w + s \<noteq> 0 then w / (w + s) else 0)\<rparr>"
  using assms unfolding calculateStarBest_def Let_def emptyResults_def
  by (auto split: if_splits sum.splits prod.splits list.splits option.splits)


lemma calculateFullRound_runoff_members:
  assumes "calculateFullRound N cands (RankedRobin # ms) = Inr (r, cands')"
    and "RankedRobin \<notin> set ms"
  shows "set (FullRoundResult.winners r) \<subseteq> set (calculateRankedWins cands)"
proof -
  from assms obtain rs ws ca where
    loop: "fullRoundLoop N [] [] cands True cands (RankedRobin # ms) = Inr (rs, ws, ca)"
    and ws: "FullRoundResult.winners r = ws"
    by (auto simp: calculateFullRound_def split: sum.splits)
  have pool: "roundPool RankedRobin cands = calculateRankedWins cands"
    by (simp add: roundPool_def)
  from loop have "set ws \<subseteq> set (calculateRankedWins cands)"
  proof (cases rule: fullRoundLoop_Cons_cases)
    case (1 r1)
    from calculateMiniRound_result(3) [OF 1(1)] 1(4) pool show ?thesis
      by simp
  next
    case (2 r1)
    from calculateMiniRound_result(3,4) [OF 2(1)] pool
    have "set (MiniRoundResult.winners r1) \<subseteq> set (calculateRankedWins cands)"
      "set (tied r1) \<subseteq> set (calculateRankedWins cands)"
      by simp_all
    with fullRoundLoop_members_exact [OF 2(3) assms(2)] show ?thesis
      by auto
  qed
  with ws show ?thesis by simp
qed

lemma fraction_bounds:
  fixes w s :: nat
  shows "0 \<le> (if (of_nat w :: rat) + of_nat s \<noteq> 0
                then (of_nat w :: rat) / (of_nat w + of_nat s) else 0)"
    and "(if (of_nat w :: rat) + of_nat s \<noteq> 0
          then (of_nat w :: rat) / (of_nat w + of_nat s) else 0) \<le> 1"
proof -
  let ?a = "of_nat w :: rat" and ?b = "of_nat s :: rat"
  have nn: "0 \<le> ?a" "0 \<le> ?b"
    by simp_all
  have lo: "0 \<le> ?a / (?a + ?b)"
    using nn by (intro divide_nonneg_nonneg) simp_all
  have hi: "?a / (?a + ?b) \<le> 1" if "?a + ?b \<noteq> 0"
  proof -
    from that nn have "0 < ?a + ?b"
      by linarith
    then show ?thesis
      using nn by (simp add: divide_le_eq_1_pos)
  qed
  show "0 \<le> (if ?a + ?b \<noteq> 0 then ?a / (?a + ?b) else 0)"
    using lo by simp
  show "(if ?a + ?b \<noteq> 0 then ?a / (?a + ?b) else 0) \<le> 1"
    using hi by simp
qed

lemma calculateStarBest_finalists:
  assumes "calculateStarBest cands d = Inr res"
    and "bestTime res = Some best" and "nextBest res = Some runnerUp"
  shows "\<exists>W S winnerWins secondWins.
           2 < length cands \<and> Candidate.date W \<noteq> Candidate.date S
           \<and> (\<exists>c \<in> set cands. sameCandidate c W) \<and> (\<exists>c \<in> set cands. sameCandidate c S)
           \<and> ResultTimeScore.time best = Candidate.date W
           \<and> ResultTimeScore.time runnerUp = Candidate.date S
           \<and> winnerWins = calculateRankedWinsBetweenPair (Candidate.people W) (Candidate.people S)
           \<and> secondWins = calculateRankedWinsBetweenPair (Candidate.people S) (Candidate.people W)
           \<and> getMetric W RankedRobin = Inr (of_nat winnerWins)
           \<and> getMetric S RankedRobin = Inr (of_nat secondWins)
           \<and> preferredFraction res
               = Some (if winnerWins + secondWins = 0 then 0
                       else of_nat winnerWins / (of_nat winnerWins + of_nat secondWins))
           \<and> (\<exists>f. preferredFraction res = Some f \<and> 0 \<le> f \<and> f \<le> 1)"
proof -
  from calculateStarBest_two [OF assms(1,3)]
  obtain scoreRound cands' runoffRound scoreWinners winner rest second w s where
    sr: "calculateFullRound 2 cands [Score, RankedRobin, FiveStars, Random] = Inr (scoreRound, cands')"
    and rr: "calculateFullRound 1 (FullRoundResult.winners scoreRound)
               [RankedRobin, Score, FiveStars, Random] = Inr (runoffRound, scoreWinners)"
    and win: "FullRoundResult.winners runoffRound = winner # rest"
    and snd: "find (\<lambda>w. Candidate.date w \<noteq> Candidate.date winner) scoreWinners = Some second"
    and gw: "getMetric winner RankedRobin = Inr w"
    and gs: "getMetric second RankedRobin = Inr s"
    and res: "res = \<lparr>bestTime =
                  Some \<lparr>ResultTimeScore.time = Candidate.date winner,
                        score = js_div (Candidate.score winner) (numTimeslots d)\<rparr>,
                nextBest =
                  Some \<lparr>ResultTimeScore.time = Candidate.date second,
                        score = js_div (Candidate.score second) (numTimeslots d)\<rparr>,
                preferredFraction = Some (if w + s \<noteq> 0 then w / (w + s) else 0)\<rparr>"
    by blast
  let ?R = "FullRoundResult.winners scoreRound"
  from calculateFullRound_first [OF sr] have big: "2 < int (length cands)"
    by simp
  from calculateFullRound_safe [of 2 cands "[Score, RankedRobin, FiveStars, Random]"] big sr
  have le2: "length ?R \<le> 2"
    by auto
  from calculateFullRound_first [OF rr] have gt1: "1 < length ?R"
    and sw: "scoreWinners = sortedPool RankedRobin ?R"
    by simp_all
  from le2 gt1 obtain x y where R: "?R = [x, y]"
    by (cases ?R; cases "tl ?R"; cases "tl (tl ?R)") auto
  from calculateFullRound_members [OF sr] R
  obtain cx cy where cx: "cx \<in> set cands" "sameCandidate cx x"
    and cy: "cy \<in> set cands" "sameCandidate cy y"
    by auto
  let ?wx = "calculateRankedWinsBetweenPair (Candidate.people x) (Candidate.people y)"
  let ?wy = "calculateRankedWinsBetweenPair (Candidate.people y) (Candidate.people x)"
  let ?x = "x\<lparr>rankedWins := Some ?wx\<rparr>"
  let ?y = "y\<lparr>rankedWins := Some ?wy\<rparr>"
  have pair: "calculateRankedWins ?R = [?x, ?y]"
    using R by (simp add: calculateRankedWins_pair)
  from calculateFullRound_runoff_members [OF rr] win pair
  have winner: "winner = ?x \<or> winner = ?y"
    by auto
  have "set scoreWinners = {?x, ?y}"
    using sw pair by (simp add: sortedPool_set roundPool_def)
  moreover from snd have "second \<in> set scoreWinners"
    and diff: "Candidate.date second \<noteq> Candidate.date winner"
    by (auto simp: find_Some_iff in_set_conv_nth)
  ultimately have second: "second = ?x \<or> second = ?y"
    by auto
  have sx: "sameCandidate cx ?x" and sy: "sameCandidate cy ?y"
    using cx(2) cy(2) sameCandidate_trans sameCandidate_update by blast+
  from winner second diff consider "winner = ?x" "second = ?y" | "winner = ?y" "second = ?x"
    by auto
  then show ?thesis
  proof cases
    case 1
    with gw gs have w: "w = of_nat ?wx" and s: "s = of_nat ?wy"
      by (simp_all add: getMetric_def)
    have z: "(of_nat ?wx :: rat) + of_nat ?wy = 0 \<longleftrightarrow> ?wx + ?wy = 0"
      by (metis of_nat_0_eq_iff of_nat_add)
    show ?thesis
      apply (rule exI [of _ winner], rule exI [of _ second], rule exI [of _ ?wx], rule exI [of _ ?wy])
      using 1 big diff cx(1) cy(1) sx sy res w s z assms(2,3) fraction_bounds [of ?wx ?wy]
      by (auto simp: getMetric_def)
  next
    case 2
    with gw gs have w: "w = of_nat ?wy" and s: "s = of_nat ?wx"
      by (simp_all add: getMetric_def)
    have z: "(of_nat ?wy :: rat) + of_nat ?wx = 0 \<longleftrightarrow> ?wy + ?wx = 0"
      by (metis of_nat_0_eq_iff of_nat_add)
    show ?thesis
      apply (rule exI [of _ winner], rule exI [of _ second], rule exI [of _ ?wy], rule exI [of _ ?wx])
      using 2 big diff cx(1) cy(1) sx sy res w s z assms(2,3) fraction_bounds [of ?wy ?wx]
      by (auto simp: getMetric_def)
  qed
qed


text \<open>
  Claim C8: when a best time and a next best are returned, they are two candidates \<open>W\<close>
  and \<open>S\<close> of the pool; the ranked wins read for them are the wins of the tally between
  exactly these two; the preferred fraction is the wins of \<open>W\<close> divided by the wins of
  both, it is 0 when both have no win, and it lies between 0 and 1.
\<close>

theorem C8_preferred_fraction:
  assumes "calculateStarBest cands d = Inr res"
    and "bestTime res = Some best" and "nextBest res = Some runnerUp"
  shows "\<exists>W S winnerWins secondWins.
           (\<exists>c \<in> set cands. sameCandidate c W) \<and> (\<exists>c \<in> set cands. sameCandidate c S)
           \<and> ResultTimeScore.time best = Candidate.date W
           \<and> ResultTimeScore.time runnerUp = Candidate.date S
           \<and> winnerWins = calculateRankedWinsBetweenPair (Candidate.people W) (Candidate.people S)
           \<and> secondWins = calculateRankedWinsBetweenPair (Candidate.people S) (Candidate.people W)
           \<and> getMetric W RankedRobin = Inr (of_nat winnerWins)
           \<and> getMetric S RankedRobin = Inr (of_nat secondWins)
           \<and> preferredFraction res
               = Some (if winnerWins + secondWins = 0 then 0
                       else of_nat winnerWins / (of_nat winnerWins + of_nat secondWins))
           \<and> (\<exists>f. preferredFraction res = Some f \<and> 0 \<le> f \<and> f \<le> 1)"
  using calculateStarBest_finalists [OF assms]
  apply (elim exE conjE)
  subgoal for W S winnerWins secondWins
    by (intro exI [of _ W] exI [of _ S] exI [of _ winnerWins] exI [of _ secondWins] conjI) blast+
  done

theorem C8_preferred_fraction_witness:
  "calculateStarBest exampleCandidates 15 = Inr exampleResult
   \<and> bestTime exampleResult = Some exampleBest \<and> nextBest exampleResult = Some exampleNext
   \<and> preferredFraction exampleResult = Some (1 / 2)
   \<and> (\<exists>W S winnerWins secondWins.
          (\<exists>c \<in> set exampleCandidates. sameCandidate c W)
          \<and> (\<exists>c \<in> set exampleCandidates. sameCandidate c S)
          \<and> ResultTimeScore.time exampleBest = Candidate.date W
          \<and> ResultTimeScore.time exampleNext = Candidate.date S
          \<and> winnerWins = calculateRankedWinsBetweenPair (Candidate.people W) (Candidate.people S)
          \<and> secondWins = calculateRankedWinsBetweenPair (Candidate.people S) (Candidate.people W)
          \<and> getMetric W RankedRobin = Inr (of_nat winnerWins)
          \<and> getMetric S RankedRobin = Inr (of_nat secondWins)
          \<and> preferredFraction exampleResult
              = Some (if winnerWins + secondWins = 0 then 0
                      else of_nat winnerWins / (of_nat winnerWins + of_nat secondWins))
          \<and> (\<exists>f. preferredFraction exampleResult = Some f \<and> 0 \<le> f \<and> f \<le> 1))"
proof -
  have v: "calculateStarBest exampleCandidates 15 = Inr exampleResult"
    by code_simp
  have b: "bestTime exampleResult = Some exampleBest"
    and n: "nextBest exampleResult = Some exampleNext"
    and f: "preferredFraction exampleResult = Some (1 / 2)"
    by (simp_all add: exampleResult_def)
  show ?thesis
    by (intro conjI v b n f C8_preferred_fraction [OF v b n])
qed

subsection \<open>Windows of the finalists\<close>

text \<open>
  The Overlap Filter keeps only candidates whose window does not overlap the window of its
  top scorer. Hence, when labels stand for different times and the top scorer of the filter
  is the best time or the next best of the result, the two windows do not overlap.
\<close>

lemma kept_apart:
  assumes "\<not> (timeInsideRange s2 (s1, s1 + int d) \<or> timeInsideRange (s2 + int d) (s1, s1 + int d))"
    and "s2 \<noteq> s1"
  shows "s1 + int d \<le> s2 \<or> s2 + int d \<le> s1"
  using assms by (auto simp: timeInsideRange_def)

lemma finalists_apart_when_top_advances:
  assumes res: "calculateBestTime sr tms ps d eid tm = Inr res"
    and best: "bestTime res = Some best" and nxt: "nextBest res = Some runnerUp"
    and inj: "inj_on tm (set tms)"
    and highest: "calculateFullRound 1 (initialCandidates sr tms ps d eid tm)
                [Score, RankedRobin, FiveStars, Random] = Inr (r, cands')"
             "FullRoundResult.winners r = highest # rest"
    and adv: "ResultTimeScore.time best = Candidate.date highest
              \<or> ResultTimeScore.time runnerUp = Candidate.date highest"
  shows "tm (ResultTimeScore.time best) + int d \<le> tm (ResultTimeScore.time runnerUp)
         \<or> tm (ResultTimeScore.time runnerUp) + int d \<le> tm (ResultTimeScore.time best)"
proof -
  let ?c0 = "initialCandidates sr tms ps d eid tm"
  have ps: "ps \<noteq> []"
    using res nxt by (auto simp: calculateBestTime_def emptyResults_def)
  then obtain cands where surv: "removeOverlapsWithTopScorer ?c0 d tm = Inr cands"
    and sb: "calculateStarBest cands d = Inr res"
    using res by (auto simp: calculateBestTime_survivors survivingCandidates_def split: sum.splits)
  from calculateStarBest_finalists [OF sb best nxt]
  obtain W S cw cs where big: "2 < length cands"
    and diff: "Candidate.date W \<noteq> Candidate.date S"
    and cw: "cw \<in> set cands" "sameCandidate cw W"
    and cs: "cs \<in> set cands" "sameCandidate cs S"
    and tb: "ResultTimeScore.time best = Candidate.date W"
    and tn: "ResultTimeScore.time runnerUp = Candidate.date S"
    by blast
  have big0: "2 < length ?c0"
  proof (rule ccontr)
    assume "\<not> 2 < length ?c0"
    with surv have "cands = ?c0"
      by (simp add: removeOverlapsWithTopScorer_def)
    with big \<open>\<not> 2 < length ?c0\<close> show False by simp
  qed
  from removeOverlaps_kept [OF surv big0]
  obtain r1 top1 rest1 where fr: "calculateFullRound 1 ?c0 [Score, RankedRobin, FiveStars, Random]
                                    = Inr (r1, sortedPool Score ?c0)"
    and t1: "FullRoundResult.winners r1 = top1 # rest1"
    and flt: "cands = filter (\<lambda>other.
                   \<not> (timeInsideRange (tm (Candidate.date other))
                         (tm (Candidate.date top1), tm (Candidate.date top1) + int d)
                      \<or> timeInsideRange (tm (Candidate.date other) + int d)
                         (tm (Candidate.date top1), tm (Candidate.date top1) + int d)))
                 (sortedPool Score ?c0)"
    by blast
  from fr t1 highest have same: "top1 = highest"
    by simp
  let ?s = "tm (Candidate.date highest)"
  have dates: "Candidate.date ` set ?c0 = set tms"
    using initialCandidates_random(2) [OF ps, of sr tms d eid tm] by (metis set_map)
  have st: "set (sortedPool Score ?c0) = set ?c0"
    by (simp add: sortedPool_set roundPool_def)
  have kept: "\<not> (timeInsideRange (tm (Candidate.date c)) (?s, ?s + int d)
                  \<or> timeInsideRange (tm (Candidate.date c) + int d) (?s, ?s + int d))"
    and lab: "Candidate.date c \<in> set tms" if "c \<in> set cands" for c
    using that flt same st dates by auto
  from calculateFullRound_members [OF fr] t1 same obtain ct where
    ct: "ct \<in> set ?c0" "sameCandidate ct highest"
    by auto
  have dt: "Candidate.date highest \<in> set tms"
    using ct dates sameCandidate_fields(1) [OF ct(2)] by auto
  have dW: "Candidate.date W = Candidate.date cw" and dS: "Candidate.date S = Candidate.date cs"
    using sameCandidate_fields(1) [OF cw(2)] sameCandidate_fields(1) [OF cs(2)] by simp_all
  from adv tb tn consider "Candidate.date W = Candidate.date highest" | "Candidate.date S = Candidate.date highest"
    by auto
  then show ?thesis
  proof cases
    case 1
    with diff have "Candidate.date S \<noteq> Candidate.date highest" by simp
    with inj lab [OF cs(1)] dt dS have "tm (Candidate.date S) \<noteq> ?s"
      by (auto dest: inj_onD)
    with kept [OF cs(1)] dS have "?s + int d \<le> tm (Candidate.date S) \<or> tm (Candidate.date S) + int d \<le> ?s"
      by (intro kept_apart) simp_all
    with 1 tb tn show ?thesis by simp
  next
    case 2
    with diff have "Candidate.date W \<noteq> Candidate.date highest" by simp
    with inj lab [OF cw(1)] dt dW have "tm (Candidate.date W) \<noteq> ?s"
      by (auto dest: inj_onD)
    with kept [OF cw(1)] dW have "?s + int d \<le> tm (Candidate.date W) \<or> tm (Candidate.date W) + int d \<le> ?s"
      by (intro kept_apart) simp_all
    with 2 tb tn show ?thesis by auto
  qed
qed

subsection \<open>The arrays and lists the engine builds\<close>

text \<open>
  For labels that stand for different quarter-hour times, the dense array of a person is
  sorted, has no time twice and lies on the quarter-hour grid, so that the scores of the
  Duration Aggregator are the reference scores. The lists of people of the candidates hold
  positive scores only, and one entry per person when the people have different names.
\<close>

lemma fullAvailability_grid:
  assumes "distinct (map tm tms)" and "\<forall>t \<in> set tms. 15 dvd tm t"
  shows "sorted (map FullSlot.timeObj (fullAvailability tms av tm))"
    and "distinct (map FullSlot.timeObj (fullAvailability tms av tm))"
    and "\<forall>s \<in> set (fullAvailability tms av tm). 15 dvd FullSlot.timeObj s"
proof -
  let ?xs = "map (\<lambda>t. \<lparr>FullSlot.time = t, timeObj = tm t, score = getScoreForTime t av\<rparr>) tms"
  have fa: "fullAvailability tms av tm = sort_key FullSlot.timeObj ?xs"
    by (simp add: fullAvailability_def)
  show "sorted (map FullSlot.timeObj (fullAvailability tms av tm))"
    by (simp add: fa)
  have m: "map FullSlot.timeObj ?xs = map tm tms"
    by (simp add: comp_def)
  show "distinct (map FullSlot.timeObj (fullAvailability tms av tm))"
    unfolding fa distinct_map_sort_key m by (rule assms(1))
  show "\<forall>s \<in> set (fullAvailability tms av tm). 15 dvd FullSlot.timeObj s"
    using assms(2) by (auto simp: fa)
qed

lemma newAvailability_reference:
  assumes "distinct (map tm tms)" and "\<forall>t \<in> set tms. 15 dvd tm t" and "15 dvd d"
  shows "newAvailability (fullAvailability tms av tm) d
         = map (\<lambda>idx. \<lparr>TimeScore.time = FullSlot.time (fullAvailability tms av tm ! idx),
                       score = naiveScoreAt (fullAvailability tms av tm) d idx\<rparr>)
             [0..<length (fullAvailability tms av tm)]"
  unfolding newAvailability_def
  using window_inside_slice [OF fullAvailability_grid [OF assms(1,2), of av] assms(3)]
  by (simp add: fullScoreAt_def naiveScoreAt_def Let_def slice_from_numTimeslots)

lemma nameScores_positive:
  "\<forall>p \<in> set (nameScores d ps). 0 < NameScore.score p"
  by (induction ps) (auto simp: nameScores_def Let_def)

lemma nameScores_names:
  "NameScore.name ` set (nameScores d ps) \<subseteq> PersonResponse.name ` set ps"
  by (induction ps) (auto simp: nameScores_def Let_def)

lemma nameScores_distinct:
  "distinct (map PersonResponse.name ps) \<Longrightarrow> distinct (map NameScore.name (nameScores d ps))"
proof (induction ps)
  case Nil
  then show ?case by (simp add: nameScores_def)
next
  case (Cons p ps)
  have step: "nameScores d (p # ps)
                = (if 0 < getScoreForTime d (availability p)
                   then [\<lparr>NameScore.name = PersonResponse.name p,
                          score = getScoreForTime d (availability p)\<rparr>]
                   else []) @ nameScores d ps"
    by (simp add: nameScores_def Let_def)
  have "PersonResponse.name p \<notin> NameScore.name ` set (nameScores d ps)"
    using Cons.prems nameScores_names [of d ps] by auto
  with Cons show ?case
    by (simp add: step)
qed

lemma initialCandidates_people:
  assumes "c \<in> set (initialCandidates sr tms ps d eid tm)"
    and "distinct (map PersonResponse.name ps)"
  shows "distinct (map NameScore.name (Candidate.people c))"
    and "\<forall>p \<in> set (Candidate.people c). 0 < NameScore.score p"
proof -
  let ?full = "replaceScoresWithFullScores tms ps d tm"
  let ?avs = "calculateAvailability tms ?full"
  let ?l = "simpleMetricsLoop (sr eid) 0 (numTimeslots d) ?avs"
  have names: "map PersonResponse.name ?full = map PersonResponse.name ps"
    by (simp add: replaceScoresWithFullScores_def comp_def)
  from assms(1) obtain t x where "(t, x) \<in> set (zip ?avs ?l)"
    and c: "Candidate.people c = Availability.people t"
    by (auto simp: initialCandidates_def calculateSimpleCandidateMetrics_def)
  then have "t \<in> set ?avs"
    by (auto dest: set_zip_leftD)
  then obtain l where "Availability.people t = nameScores l ?full"
    by (auto simp: calculateAvailability_def split: if_splits)
  with c have p: "Candidate.people c = nameScores l ?full"
    by simp
  show "distinct (map NameScore.name (Candidate.people c))"
    using nameScores_distinct [of ?full l] names assms(2) p by simp
  show "\<forall>p \<in> set (Candidate.people c). 0 < NameScore.score p"
    using nameScores_positive [of l ?full] p by simp
qed

end
